theory Spec2Isabelle
  imports Main "HOL-Library.Word"
begin

unbundle bit_operations_syntax

section \<open>The Go library functions the allocator calls\<close>

text \<open>
  The allocator of \<^verbatim>\<open>pkg/cluster/master.go\<close> works on IPv4 only: it takes the
  32-bit big-endian form of an address (\<^verbatim>\<open>IPToUint32\<close> goes through \<^verbatim>\<open>To4\<close>) and
  builds every subnet with a 32-bit mask. An address is therefore modelled as its four
  octets, and a mask as its prefix length (the number of leading ones of a 4-byte CIDR
  mask, at most 32 in every Go value). The functions of this section are those of
  Go's packages \<^verbatim>\<open>net\<close>, \<^verbatim>\<open>strings\<close>, \<^verbatim>\<open>strconv\<close> and \<^verbatim>\<open>encoding/binary\<close> that the
  repository calls, restricted to IPv4 text: an IPv6 literal is outside the model and
  is answered like an unparsable string.
\<close>

type_synonym byte = "8 word"
type_synonym uint32 = "32 word"

datatype IP = IPv4 byte byte byte byte

record IPNet =
  IP :: IP
  Mask :: nat

text \<open>\<^verbatim>\<open>binary.BigEndian.Uint32\<close> and \<^verbatim>\<open>binary.BigEndian.PutUint32\<close> on four bytes.\<close>

definition BigEndian_Uint32 :: "byte \<Rightarrow> byte \<Rightarrow> byte \<Rightarrow> byte \<Rightarrow> uint32" where
  "BigEndian_Uint32 b0 b1 b2 b3 =
     ucast b3 OR push_bit 8 (ucast b2) OR push_bit 16 (ucast b1) OR push_bit 24 (ucast b0)"

definition BigEndian_PutUint32 :: "uint32 \<Rightarrow> byte \<times> byte \<times> byte \<times> byte" where
  "BigEndian_PutUint32 v =
     (ucast (drop_bit 24 v), ucast (drop_bit 16 v), ucast (drop_bit 8 v), ucast v)"

text \<open>Decimal text: \<^verbatim>\<open>uitoa\<close>, the digit test and the digit value used by the parsers.\<close>

definition digitChar :: "nat \<Rightarrow> char" where
  "digitChar d = ''0123456789'' ! d"

fun itoa :: "nat \<Rightarrow> string" where
  "itoa n = (if n < 10 then [digitChar n] else itoa (n div 10) @ [digitChar (n mod 10)])"

declare itoa.simps [simp del]

definition isDigit :: "char \<Rightarrow> bool" where
  "isDigit c = (48 \<le> (of_char c :: nat) \<and> (of_char c :: nat) \<le> 57)"

definition digitVal :: "char \<Rightarrow> nat" where
  "digitVal c = of_char c - 48"

text \<open>\<^verbatim>\<open>IP.String\<close> for a 4-byte address and \<^verbatim>\<open>IPNet.String\<close>: the canonical CIDR text.\<close>

fun IP_String :: "IP \<Rightarrow> string" where
  "IP_String (IPv4 a b c d) =
     itoa (unat a) @ ''.'' @ itoa (unat b) @ ''.'' @ itoa (unat c) @ ''.'' @ itoa (unat d)"

definition IPNet_String :: "IPNet \<Rightarrow> string" where
  "IPNet_String n = IP_String (IP n) @ ''/'' @ itoa (Mask n)"

text \<open>
  \<^verbatim>\<open>net.CIDRMask(ones, 32)\<close> as a word, \<^verbatim>\<open>IP.Mask\<close> (each byte ANDed with the mask's
  byte) and \<^verbatim>\<open>IPNet.Contains\<close> (the masked bytes of both addresses agree).
\<close>

definition maskWord :: "nat \<Rightarrow> uint32" where
  "maskWord ones = push_bit (32 - ones) 0xFFFFFFFF"

fun IP_Mask :: "IP \<Rightarrow> nat \<Rightarrow> IP" where
  "IP_Mask (IPv4 a b c d) ones =
     (case BigEndian_PutUint32 (maskWord ones) of
        (m0, m1, m2, m3) \<Rightarrow> IPv4 (a AND m0) (b AND m1) (c AND m2) (d AND m3))"

definition Contains :: "IPNet \<Rightarrow> IP \<Rightarrow> bool" where
  "Contains n ip = (IP_Mask (IP n) (Mask n) = IP_Mask ip (Mask n))"

text \<open>
  \<^verbatim>\<open>net.ParseCIDR\<close>: the text before the first slash is parsed as an address
  (\<^verbatim>\<open>netip.ParseAddr\<close>), the text after it as a decimal prefix length (\<^verbatim>\<open>dtoi\<close>,
  which must consume all of it); the network returned holds the masked address. The
  unmasked address that Go returns first is dropped by every caller in the repository.
\<close>

fun IndexByte :: "string \<Rightarrow> char \<Rightarrow> nat option" where
  "IndexByte [] c = None"
| "IndexByte (x # xs) c =
     (if x = c then Some 0 else (case IndexByte xs c of None \<Rightarrow> None | Some i \<Rightarrow> Some (Suc i)))"

fun dtoi_loop :: "string \<Rightarrow> nat \<Rightarrow> nat \<Rightarrow> nat \<times> nat \<times> bool" where
  "dtoi_loop [] n i = (if i = 0 then (0, 0, False) else (n, i, True))"
| "dtoi_loop (c # s) n i =
     (if isDigit c then
        (if n * 10 + digitVal c \<ge> 0xFFFFFF then (0xFFFFFF, i, False)
         else dtoi_loop s (n * 10 + digitVal c) (i + 1))
      else if i = 0 then (0, 0, False) else (n, i, True))"

definition dtoi :: "string \<Rightarrow> nat \<times> nat \<times> bool" where
  "dtoi s = dtoi_loop s 0 0"

text \<open>
  \<^verbatim>\<open>parseIPv4Fields\<close>: \<open>val\<close> is the octet being read, \<open>digLen\<close> its number of digits,
  \<open>fields'\<close> the octets finished so far (Go's \<^verbatim>\<open>pos\<close> is their number). A dot is
  refused at the start, at the end and after another dot, that is when no digit
  precedes it or nothing follows it. An octet written with a leading zero is refused,
  as Go has done since version 1.17.
\<close>

fun parseIPv4Fields :: "string \<Rightarrow> nat \<Rightarrow> nat \<Rightarrow> nat list \<Rightarrow> nat list option" where
  "parseIPv4Fields [] val digLen fields' =
     (if length fields' < 3 then None else Some (fields' @ [val]))"
| "parseIPv4Fields (c # s) val digLen fields' =
     (if isDigit c then
        (if digLen = 1 \<and> val = 0 then None
         else if val * 10 + digitVal c > 255 then None
         else parseIPv4Fields s (val * 10 + digitVal c) (digLen + 1) fields')
      else if c = CHR ''.'' then
        (if digLen = 0 \<or> s = [] then None
         else if length fields' = 3 then None
         else parseIPv4Fields s 0 0 (fields' @ [val]))
      else None)"

definition parseIPv4 :: "string \<Rightarrow> IP option" where
  "parseIPv4 s =
     (case parseIPv4Fields s 0 0 [] of
        Some [a, b, c, d] \<Rightarrow> Some (IPv4 (of_nat a) (of_nat b) (of_nat c) (of_nat d))
      | _ \<Rightarrow> None)"

definition ParseAddr :: "string \<Rightarrow> IP option" where
  "ParseAddr s =
     (case find (\<lambda>c. c = CHR ''.'' \<or> c = CHR '':'' \<or> c = CHR ''%'') s of
        Some c \<Rightarrow> (if c = CHR ''.'' then parseIPv4 s else None)
      | None \<Rightarrow> None)"

definition ParseCIDR :: "string \<Rightarrow> IPNet option" where
  "ParseCIDR s =
     (case IndexByte s (CHR ''/'') of
        None \<Rightarrow> None
      | Some i \<Rightarrow>
          (case ParseAddr (take i s) of
             None \<Rightarrow> None
           | Some ipAddr \<Rightarrow>
               (case dtoi (drop (i + 1) s) of
                  (n, j, ok) \<Rightarrow>
                    if \<not> ok \<or> j \<noteq> length (drop (i + 1) s) \<or> n > 32 then None
                    else Some \<lparr>IP = IP_Mask ipAddr n, Mask = n\<rparr>)))"

section \<open>The subnet allocator (pkg/cluster/master.go)\<close>

text \<open>
  The error values of the allocator. The spec's names: the first three are
  \<open>InvalidPool\<close>, \<open>ErrSubnetAllocatorFull\<close> is \<open>PoolExhausted\<close>, \<open>ErrNotInNetwork\<close> is
  \<open>NotInPool\<close> and \<open>ErrAlreadyAvailable\<close> is \<open>AlreadyFree\<close>.
\<close>

datatype error =
    ErrParseNetwork
  | ErrHostCapacityZero
  | ErrSubnetCapacityTooLarge
  | ErrSubnetAllocatorFull
  | ErrNotInNetwork
  | ErrAlreadyAvailable

text \<open>
  The struct without its mutex: the model is sequential, one call at a time. The map
  is Go's \<^verbatim>\<open>map[string]bool\<close>; reading a missing key gives \<open>false\<close>.
\<close>

record SubnetAllocator =
  network :: IPNet
  hostBits :: uint32
  leftShift :: uint32
  leftMask :: uint32
  rightShift :: uint32
  rightMask :: uint32
  "next" :: uint32
  allocMap :: "string \<rightharpoonup> bool"

definition mapGet :: "(string \<rightharpoonup> bool) \<Rightarrow> string \<Rightarrow> bool" where
  "mapGet m k = (case m k of None \<Rightarrow> False | Some b \<Rightarrow> b)"

definition IPToUint32 :: "IP \<Rightarrow> uint32" where
  "IPToUint32 ip = (case ip of IPv4 a b c d \<Rightarrow> BigEndian_Uint32 a b c d)"

definition Uint32ToIP :: "uint32 \<Rightarrow> IP" where
  "Uint32ToIP u = (case BigEndian_PutUint32 u of (a, b, c, d) \<Rightarrow> IPv4 a b c d)"

text \<open>
  The lines that the seeding loop of \<^verbatim>\<open>NewSubnetAllocator\<close> prints with
  \<^verbatim>\<open>fmt.Println\<close>, one value per skipped entry.
\<close>

datatype warning =
    FailedToParse string
  | NotInNetworkWarning IPNet

text \<open>
  The loop over \<^verbatim>\<open>inUse\<close> (lines 130 to 141): the map built so far and the lines
  printed so far are passed along.
\<close>

fun seedAllocMap ::
  "IPNet \<Rightarrow> string list \<Rightarrow> (string \<rightharpoonup> bool) \<Rightarrow> warning list \<Rightarrow> (string \<rightharpoonup> bool) \<times> warning list" where
  "seedAllocMap netIP [] amap out = (amap, out)"
| "seedAllocMap netIP (netStr # rest) amap out =
     (case ParseCIDR netStr of
        None \<Rightarrow> seedAllocMap netIP rest amap (out @ [FailedToParse netStr])
      | Some nIp \<Rightarrow>
          if \<not> Contains netIP (IP nIp)
          then seedAllocMap netIP rest amap (out @ [NotInNetworkWarning nIp])
          else seedAllocMap netIP rest (amap(IPNet_String nIp \<mapsto> True)) out)"

definition NewSubnetAllocator :: "string \<Rightarrow> uint32 \<Rightarrow> string list \<Rightarrow> error + SubnetAllocator" where
  "NewSubnetAllocator network' hostBits' inUse =
     (case ParseCIDR network' of
        None \<Rightarrow> Inl ErrParseNetwork
      | Some netIP \<Rightarrow>
          let netMaskSize = Mask netIP in
          if hostBits' = 0 then Inl ErrHostCapacityZero
          else if hostBits' > 32 - of_nat netMaskSize then Inl ErrSubnetCapacityTooLarge
          else
            let subnetBits = 32 - of_nat netMaskSize - hostBits';
                (leftShift', leftMask', rightShift', rightMask') =
                  (if hostBits' mod 8 \<noteq> 0 \<and>
                      (hostBits' - 1) div 8 \<noteq> (hostBits' + subnetBits - 1) div 8
                   then (8 - hostBits' mod 8,
                         push_bit (unat (32 - of_nat netMaskSize :: uint32)) 1 - 1,
                         subnetBits - (8 - hostBits' mod 8),
                         push_bit (unat hostBits') (push_bit (unat (8 - hostBits' mod 8)) 1 - 1))
                   else (0, 0xFFFFFFFF, 0, 0));
                amap = fst (seedAllocMap netIP inUse Map.empty [])
            in Inr \<lparr>network = netIP, hostBits = hostBits', leftShift = leftShift',
                     leftMask = leftMask', rightShift = rightShift', rightMask = rightMask',
                     next = 0, allocMap = amap\<rparr>)"


text \<open>
  The candidate subnet of index \<open>n\<close> (lines 170 to 173 of \<^verbatim>\<open>GetNetwork\<close>). Its mask
  is \<^verbatim>\<open>net.CIDRMask(int(numSubnetBits)+netMaskSize, 32)\<close>, here the number of ones
  itself; on a constructed allocator that number is \<open>32 - hostBits\<close>, so the mask
  exists (Go returns no mask for more than 32 ones).
\<close>

definition genSubnet :: "SubnetAllocator \<Rightarrow> uint32 \<Rightarrow> nat \<Rightarrow> uint32 \<Rightarrow> uint32 \<Rightarrow> IPNet" where
  "genSubnet sna baseipu netMaskSize numSubnetBits n =
     (let shifted = push_bit (unat (hostBits sna)) n;
          ipu = baseipu OR (push_bit (unat (leftShift sna)) shifted AND leftMask sna)
                        OR (drop_bit (unat (rightShift sna)) shifted AND rightMask sna);
          genIp = Uint32ToIP ipu
      in \<lparr>IP = genIp, Mask = unat numSubnetBits + netMaskSize\<rparr>)"

text \<open>
  The scan of \<^verbatim>\<open>GetNetwork\<close> (lines 167 to 182) from loop index \<open>i\<close>: the result
  and the allocator as the call leaves it.
\<close>

function GetNetwork_loop ::
  "SubnetAllocator \<Rightarrow> uint32 \<Rightarrow> nat \<Rightarrow> uint32 \<Rightarrow> uint32 \<Rightarrow> uint32 \<Rightarrow> (error + IPNet) \<times> SubnetAllocator" where
  "GetNetwork_loop sna baseipu netMaskSize numSubnetBits numSubnets i =
     (if i < numSubnets then
        (if \<not> mapGet (allocMap sna)
               (IPNet_String (genSubnet sna baseipu netMaskSize numSubnetBits ((i + next sna) mod numSubnets)))
         then (Inr (genSubnet sna baseipu netMaskSize numSubnetBits ((i + next sna) mod numSubnets)),
               sna\<lparr>allocMap := (allocMap sna)
                      (IPNet_String (genSubnet sna baseipu netMaskSize numSubnetBits ((i + next sna) mod numSubnets)) \<mapsto> True),
                    next := (i + next sna) mod numSubnets + 1\<rparr>)
         else GetNetwork_loop sna baseipu netMaskSize numSubnetBits numSubnets (i + 1))
      else (Inl ErrSubnetAllocatorFull, sna\<lparr>next := 0\<rparr>))"
  by pat_completeness auto
termination
proof (relation "measure (\<lambda>(sna, baseipu, netMaskSize, numSubnetBits, numSubnets, i). unat numSubnets - unat i)")
  show "wf (measure (\<lambda>(sna, baseipu, netMaskSize, numSubnetBits, numSubnets, i). unat numSubnets - unat i))"
    by simp
next
  fix sna :: SubnetAllocator and baseipu :: uint32 and netMaskSize :: nat
    and numSubnetBits numSubnets i :: uint32
  assume lt: "i < numSubnets"
  then have lt': "unat i < unat numSubnets"
    by (simp add: word_less_nat_alt)
  have "unat numSubnets < 2 ^ 32"
    using unsigned_less [of numSubnets, where ?'a = nat] by simp
  with lt' have "unat (i + 1) = unat i + 1"
    by (simp add: unat_word_ariths)
  moreover note lt'
  ultimately show "((sna, baseipu, netMaskSize, numSubnetBits, numSubnets, i + 1),
                    (sna, baseipu, netMaskSize, numSubnetBits, numSubnets, i))
          \<in> measure (\<lambda>(sna, baseipu, netMaskSize, numSubnetBits, numSubnets, i). unat numSubnets - unat i)"
    by simp
qed

declare GetNetwork_loop.simps [simp del]

definition GetNetwork :: "SubnetAllocator \<Rightarrow> (error + IPNet) \<times> SubnetAllocator" where
  "GetNetwork sna =
     (let baseipu = IPToUint32 (IP (network sna));
          netMaskSize = Mask (network sna);
          numSubnetBits = 32 - of_nat netMaskSize - hostBits sna;
          numSubnets = push_bit (unat numSubnetBits) 1
      in GetNetwork_loop sna baseipu netMaskSize numSubnetBits numSubnets 0)"

text \<open>
  \<^verbatim>\<open>ReleaseNetwork\<close>, for a subnet that is given (not a nil pointer): the error
  returned, if any, and the allocator as the call leaves it.
\<close>

definition ReleaseNetwork :: "SubnetAllocator \<Rightarrow> IPNet \<Rightarrow> error option \<times> SubnetAllocator" where
  "ReleaseNetwork sna ipnet =
     (if \<not> Contains (network sna) (IP ipnet) then (Some ErrNotInNetwork, sna)
      else
        let ipnetStr = IPNet_String ipnet in
        if \<not> mapGet (allocMap sna) ipnetStr then (Some ErrAlreadyAvailable, sna)
        else (None, sna\<lparr>allocMap := (allocMap sna)(ipnetStr \<mapsto> False)\<rparr>))"

section \<open>Sequences of calls on one allocator\<close>

text \<open>
  A caller's view of one allocator: a list of calls, run one after the other, each on
  the allocator as the call before it left it, with the value every call returned.
\<close>

datatype call = Allocate | Release IPNet

datatype outcome = Allocated "error + IPNet" | Released "error option"

fun runCall :: "SubnetAllocator \<Rightarrow> call \<Rightarrow> outcome \<times> SubnetAllocator" where
  "runCall sna Allocate = (case GetNetwork sna of (r, sna') \<Rightarrow> (Allocated r, sna'))"
| "runCall sna (Release ipnet) = (case ReleaseNetwork sna ipnet of (r, sna') \<Rightarrow> (Released r, sna'))"

fun runCalls :: "SubnetAllocator \<Rightarrow> call list \<Rightarrow> outcome list \<times> SubnetAllocator" where
  "runCalls sna [] = ([], sna)"
| "runCalls sna (c # cs) =
     (case runCall sna c of (r, sna') \<Rightarrow>
        (case runCalls sna' cs of (rs, sna'') \<Rightarrow> (r # rs, sna'')))"

section \<open>The pool configuration parser (cmd/ovnkube)\<close>











section \<open>What the constructor establishes\<close>

text \<open>
  The fields that no method writes after construction, in the form the proofs use:
  the pool is a masked IPv4 network, \<open>hostBits\<close> lies between 1 and the number of
  free bits, and the four rotation parameters are either the identity or a rotation
  whose two shifts add up to the width of the subnet number.
\<close>

definition wfPool :: "SubnetAllocator \<Rightarrow> bool" where
  "wfPool sna \<longleftrightarrow>
     Mask (network sna) \<le> 32 \<and> 1 \<le> unat (hostBits sna) \<and>
     unat (hostBits sna) + Mask (network sna) \<le> 32 \<and>
     IPToUint32 (IP (network sna)) AND maskWord (Mask (network sna)) = IPToUint32 (IP (network sna)) \<and>
     ((leftShift sna = 0 \<and> leftMask sna = - 1 \<and> rightShift sna = 0 \<and> rightMask sna = 0) \<or>
      (unat (leftShift sna) + unat (rightShift sna) = 32 - Mask (network sna) - unat (hostBits sna) \<and>
       leftMask sna = mask (32 - Mask (network sna)) \<and>
       rightMask sna = push_bit (unat (hostBits sna)) (mask (unat (leftShift sna)))))"

text \<open>
  Names for what \<^verbatim>\<open>GetNetwork\<close> computes before its loop, and for the bits that
  the loop ORs into the base address for the subnet number \<open>n\<close>.
\<close>

definition numSubnetBits_of :: "SubnetAllocator \<Rightarrow> uint32" where
  "numSubnetBits_of sna = 32 - of_nat (Mask (network sna)) - hostBits sna"

definition numSubnets_of :: "SubnetAllocator \<Rightarrow> uint32" where
  "numSubnets_of sna = push_bit (unat (numSubnetBits_of sna)) 1"

definition candidate :: "SubnetAllocator \<Rightarrow> uint32 \<Rightarrow> IPNet" where
  "candidate sna n =
     genSubnet sna (IPToUint32 (IP (network sna))) (Mask (network sna)) (numSubnetBits_of sna) n"

definition rotated :: "SubnetAllocator \<Rightarrow> uint32 \<Rightarrow> uint32" where
  "rotated sna n =
     (push_bit (unat (leftShift sna)) (push_bit (unat (hostBits sna)) n) AND leftMask sna) OR
     (drop_bit (unat (rightShift sna)) (push_bit (unat (hostBits sna)) n) AND rightMask sna)"

text \<open>
  The allocator after exactly \<open>k\<close> allocations on an empty map and no release: the
  candidates numbered below \<open>k\<close> are in use and the cursor stands at \<open>k\<close>.
\<close>

definition freshState :: "SubnetAllocator \<Rightarrow> nat \<Rightarrow> SubnetAllocator" where
  "freshState sna k =
     sna\<lparr>allocMap := (\<lambda>s. if \<exists>i<k. s = IPNet_String (candidate sna (of_nat i)) then Some True else None),
         next := of_nat k\<rparr>"

section \<open>Bytes, words and the canonical text\<close>

lemma maskWord_eq: "maskWord p = NOT (mask (32 - p))"
proof -
  have e: "(0xFFFFFFFF :: uint32) = - 1" by simp
  show ?thesis
    unfolding maskWord_def e by simp
qed

lemma BigEndian_Put_Get: "BigEndian_PutUint32 (BigEndian_Uint32 a b c d) = (a, b, c, d)"
proof -
  let ?u = "BigEndian_Uint32 a b c d"
  have "ucast (drop_bit 24 ?u) = a"
    unfolding BigEndian_Uint32_def
    by (rule bit_word_eqI) (auto simp add: bit_simps dest: bit_imp_le_length)
  moreover have "ucast (drop_bit 16 ?u) = b"
    unfolding BigEndian_Uint32_def
    by (rule bit_word_eqI) (auto simp add: bit_simps dest: bit_imp_le_length)
  moreover have "ucast (drop_bit 8 ?u) = c"
    unfolding BigEndian_Uint32_def
    by (rule bit_word_eqI) (auto simp add: bit_simps dest: bit_imp_le_length)
  moreover have "ucast ?u = d"
    unfolding BigEndian_Uint32_def
    by (rule bit_word_eqI) (auto simp add: bit_simps dest: bit_imp_le_length)
  ultimately show ?thesis
    by (simp add: BigEndian_PutUint32_def)
qed

lemma BigEndian_Get_Put:
  "(case BigEndian_PutUint32 u of (a, b, c, d) \<Rightarrow> BigEndian_Uint32 a b c d) = u"
  unfolding BigEndian_PutUint32_def BigEndian_Uint32_def prod.case
proof (rule bit_word_eqI)
  fix n :: nat
  assume "n < LENGTH(32)"
  then have n: "n < 32" by simp
  consider "n < 8" | "8 \<le> n" "n < 16" | "16 \<le> n" "n < 24" | "24 \<le> n" "n < 32"
    using n by linarith
  then show "bit (ucast (ucast u :: byte) OR push_bit 8 (ucast (ucast (drop_bit 8 u) :: byte)) OR
            push_bit 16 (ucast (ucast (drop_bit 16 u) :: byte)) OR
            push_bit 24 (ucast (ucast (drop_bit 24 u) :: byte)) :: uint32) n = bit u n"
    by cases (auto simp add: bit_simps)
qed

lemma IPToUint32_Uint32ToIP [simp]: "IPToUint32 (Uint32ToIP u) = u"
  using BigEndian_Get_Put [of u]
  by (simp add: IPToUint32_def Uint32ToIP_def split: prod.splits)

lemma Uint32ToIP_IPToUint32 [simp]: "Uint32ToIP (IPToUint32 ip) = ip"
  by (cases ip) (simp add: IPToUint32_def Uint32ToIP_def BigEndian_Put_Get)

lemma IPToUint32_inj: "IPToUint32 x = IPToUint32 y \<Longrightarrow> x = y"
  by (metis Uint32ToIP_IPToUint32)

lemma IPToUint32_IP_Mask: "IPToUint32 (IP_Mask ip p) = IPToUint32 ip AND maskWord p"
proof (cases ip)
  case (IPv4 a b c d)
  show ?thesis
    unfolding IPv4 IP_Mask.simps IPToUint32_def BigEndian_PutUint32_def BigEndian_Uint32_def
      prod.case IP.case
    by (rule bit_word_eqI) (auto simp add: bit_simps dest: bit_imp_le_length)
qed

lemma Contains_iff:
  "Contains n ip \<longleftrightarrow> IPToUint32 (IP n) AND maskWord (Mask n) = IPToUint32 ip AND maskWord (Mask n)"
  unfolding Contains_def
  by (metis IPToUint32_IP_Mask IPToUint32_inj)

lemma digitChar_inj: "a < 10 \<Longrightarrow> b < 10 \<Longrightarrow> digitChar a = digitChar b \<Longrightarrow> a = b"
proof -
  assume a: "a < 10" and b: "b < 10" and e: "digitChar a = digitChar b"
  have d: "distinct ''0123456789''" by simp
  have l: "length ''0123456789'' = 10" by simp
  from e have "''0123456789'' ! a = ''0123456789'' ! b"
    by (simp only: digitChar_def)
  with d a b l show "a = b"
    by (simp only: nth_eq_iff_index_eq)
qed

lemma digitChar_set: "d < 10 \<Longrightarrow> digitChar d \<in> set ''0123456789''"
  unfolding digitChar_def by (rule nth_mem) simp

lemma itoa_set: "set (itoa n) \<subseteq> set ''0123456789''"
proof (induction n rule: itoa.induct)
  case (1 n)
  show ?case
  proof (cases "n < 10")
    case True
    then show ?thesis
      using digitChar_set [of n] by (subst itoa.simps) simp
  next
    case False
    have "n mod 10 < 10" by simp
    then have "digitChar (n mod 10) \<in> set ''0123456789''"
      by (rule digitChar_set)
    with False 1 show ?thesis
      by (subst itoa.simps) simp
  qed
qed

lemma itoa_length: "length (itoa n) = 1 \<longleftrightarrow> n < 10"
proof (cases "n < 10")
  case True
  then show ?thesis by (subst itoa.simps) simp
next
  case False
  then have "n div 10 \<noteq> 0" by simp
  have "itoa (n div 10) \<noteq> []"
    by (subst itoa.simps) simp
  with False show ?thesis
    by (subst itoa.simps) simp
qed

lemma itoa_inj: "itoa n = itoa m \<Longrightarrow> n = m"
proof (induction n arbitrary: m rule: itoa.induct)
  case (1 n)
  show ?case
  proof (cases "n < 10")
    case True
    with "1.prems" have m: "m < 10"
      using itoa_length [of n] itoa_length [of m] by simp
    from True m "1.prems" have "digitChar n = digitChar m"
      by (simp add: itoa.simps [of n] itoa.simps [of m])
    with True m show ?thesis by (rule digitChar_inj)
  next
    case False
    with "1.prems" have m: "\<not> m < 10"
      using itoa_length [of n] itoa_length [of m] by simp
    from False m "1.prems" have e: "itoa (n div 10) @ [digitChar (n mod 10)] = itoa (m div 10) @ [digitChar (m mod 10)]"
      by (simp add: itoa.simps [of n] itoa.simps [of m])
    then have "itoa (n div 10) = itoa (m div 10)" and d: "digitChar (n mod 10) = digitChar (m mod 10)"
      by simp_all
    with False "1.IH" have "n div 10 = m div 10" by simp
    moreover from d have "n mod 10 = m mod 10"
      by (intro digitChar_inj) simp_all
    ultimately show ?thesis
      by (metis div_mult_mod_eq)
  qed
qed

lemma split_at_sep:
  "c \<notin> set xs \<Longrightarrow> c \<notin> set xs' \<Longrightarrow> xs @ c # ys = xs' @ c # ys' \<Longrightarrow> xs = xs' \<and> ys = ys'"
proof (induction xs arbitrary: xs')
  case Nil
  then show ?case by (cases xs') auto
next
  case (Cons x xs)
  then show ?case by (cases xs') auto
qed

lemma itoa_no_dot: "CHR ''.'' \<notin> set (itoa n)"
  using itoa_set [of n] by auto

lemma itoa_no_slash: "CHR ''/'' \<notin> set (itoa n)"
  using itoa_set [of n] by auto

lemma IP_String_inj: "IP_String x = IP_String y \<Longrightarrow> x = y"
proof (cases x; cases y)
  fix a b c d a' b' c' d'
  assume x: "x = IPv4 a b c d" and y: "y = IPv4 a' b' c' d'" and e: "IP_String x = IP_String y"
  from e have e1: "itoa (unat a) @ CHR ''.'' # (itoa (unat b) @ CHR ''.'' # (itoa (unat c) @ CHR ''.'' # itoa (unat d)))
    = itoa (unat a') @ CHR ''.'' # (itoa (unat b') @ CHR ''.'' # (itoa (unat c') @ CHR ''.'' # itoa (unat d')))"
    by (simp add: x y)
  from split_at_sep [OF itoa_no_dot itoa_no_dot e1]
  have a: "itoa (unat a) = itoa (unat a')"
    and e2: "itoa (unat b) @ CHR ''.'' # (itoa (unat c) @ CHR ''.'' # itoa (unat d))
      = itoa (unat b') @ CHR ''.'' # (itoa (unat c') @ CHR ''.'' # itoa (unat d'))"
    by simp_all
  from split_at_sep [OF itoa_no_dot itoa_no_dot e2]
  have b: "itoa (unat b) = itoa (unat b')"
    and e3: "itoa (unat c) @ CHR ''.'' # itoa (unat d) = itoa (unat c') @ CHR ''.'' # itoa (unat d')"
    by simp_all
  from split_at_sep [OF itoa_no_dot itoa_no_dot e3]
  have c: "itoa (unat c) = itoa (unat c')" and d: "itoa (unat d) = itoa (unat d')"
    by simp_all
  from a b c d show "x = y"
    by (simp add: x y itoa_inj [THEN word_unat_eq_iff [THEN iffD2]])
qed

lemma IP_String_no_slash: "CHR ''/'' \<notin> set (IP_String x)"
  by (cases x) (simp add: itoa_no_slash)

lemma IPNet_String_inj: "IPNet_String x = IPNet_String y \<Longrightarrow> x = y"
proof -
  assume "IPNet_String x = IPNet_String y"
  then have "IP_String (IP x) @ CHR ''/'' # itoa (Mask x) = IP_String (IP y) @ CHR ''/'' # itoa (Mask y)"
    by (simp add: IPNet_String_def)
  from split_at_sep [OF IP_String_no_slash IP_String_no_slash this]
  have "IP x = IP y" and "Mask x = Mask y"
    by (auto dest: IP_String_inj itoa_inj)
  then show "x = y" by simp
qed

section \<open>The rotation of the subnet number\<close>

lemma bit_below_2p:
  fixes n :: uint32
  assumes "n < 2 ^ sb" "bit n j"
  shows "j < sb"
proof -
  from assms(1) have e: "n AND mask sb = n" by (rule less_mask_eq)
  from assms(2) have "bit (n AND mask sb) j" by (simp only: e)
  then show ?thesis by (simp add: bit_and_iff bit_mask_iff)
qed

lemma bit_rotated:
  fixes n :: uint32
  assumes "ls + rs = sb" "h + sb \<le> 32" "n < 2 ^ sb"
  shows "bit ((push_bit ls (push_bit h n) AND mask (h + sb)) OR
              (drop_bit rs (push_bit h n) AND push_bit h (mask ls))) k \<longleftrightarrow>
         (h + ls \<le> k \<and> k < h + sb \<and> bit n (k - (h + ls))) \<or>
         (h \<le> k \<and> k < h + ls \<and> bit n (k + rs - h))"
proof -
  have L: "bit (push_bit ls (push_bit h n) AND mask (h + sb)) k \<longleftrightarrow>
      h + ls \<le> k \<and> k < h + sb \<and> bit n (k - (h + ls))"
    using assms(2) by (auto simp add: bit_simps ac_simps)
  have R: "bit (drop_bit rs (push_bit h n) AND push_bit h (mask ls)) k \<longleftrightarrow>
      h \<le> k \<and> k < h + ls \<and> bit n (k + rs - h)"
    using assms(1,2) by (auto simp add: bit_simps ac_simps)
  show ?thesis
    by (simp only: bit_or_iff L R)
qed

lemma ParseCIDR_Some:
  assumes "ParseCIDR s = Some n"
  shows "Mask n \<le> 32" and "IPToUint32 (IP n) AND maskWord (Mask n) = IPToUint32 (IP n)"
proof -
  from assms obtain i ipAddr m j ok where "IndexByte s (CHR ''/'') = Some i"
    "ParseAddr (take i s) = Some ipAddr" "dtoi (drop (i + 1) s) = (m, j, ok)"
    and r: "(if \<not> ok \<or> j \<noteq> length (drop (i + 1) s) \<or> m > 32 then None
        else Some \<lparr>IP = IP_Mask ipAddr m, Mask = m\<rparr>) = Some n"
    unfolding ParseCIDR_def
    by (simp split: option.splits prod.splits)
  from r have m: "m \<le> 32" and n: "n = \<lparr>IP = IP_Mask ipAddr m, Mask = m\<rparr>"
    by (simp_all split: if_splits)
  from m n show "Mask n \<le> 32" by simp
  from n show "IPToUint32 (IP n) AND maskWord (Mask n) = IPToUint32 (IP n)"
    by (simp add: IPToUint32_IP_Mask and.assoc)
qed

lemma unat_32_minus:
  assumes "p \<le> 32"
  shows "unat (32 - of_nat p :: uint32) = 32 - p"
proof -
  from assms have a: "unat (of_nat p :: uint32) = p"
    by (simp add: unat_of_nat)
  from assms have "(of_nat p :: uint32) \<le> 32"
    by (simp add: word_le_nat_alt a)
  then have "unat (32 - of_nat p :: uint32) = unat (32 :: uint32) - unat (of_nat p :: uint32)"
    by (rule unat_sub)
  with a show ?thesis by simp
qed

lemma rot_arith:
  fixes h sb :: nat
  assumes "h mod 8 \<noteq> 0" "(h - 1) div 8 \<noteq> (h + sb - 1) div 8" "1 \<le> h"
  shows "8 - h mod 8 \<le> sb"
proof (rule ccontr)
  assume "\<not> 8 - h mod 8 \<le> sb"
  then have lt: "h mod 8 + sb < 8" by simp
  obtain q r where h: "h = 8 * q + r" and r: "r < 8" "r = h mod 8"
    by (metis mod_less_divisor mult_div_mod_eq zero_less_numeral)
  from assms(1) r have r1: "1 \<le> r" by simp
  from r1 r(1) have a: "(h - 1) div 8 = q"
    unfolding h by simp
  from r1 lt r have "(h + sb - 1) div 8 = q"
    unfolding h by simp
  with a assms(2) show False by simp
qed

section \<open>The fields fixed at construction\<close>

lemma NewSubnetAllocator_Inr:
  assumes "NewSubnetAllocator nw hb inUse = Inr sna"
  obtains netIP where "ParseCIDR nw = Some netIP" "hb \<noteq> 0" "\<not> hb > 32 - of_nat (Mask netIP)"
    "network sna = netIP" "hostBits sna = hb" "next sna = 0"
    "allocMap sna = fst (seedAllocMap netIP inUse Map.empty [])"
    "(leftShift sna, leftMask sna, rightShift sna, rightMask sna) =
       (if hb mod 8 \<noteq> 0 \<and> (hb - 1) div 8 \<noteq> (hb + (32 - of_nat (Mask netIP) - hb) - 1) div 8
        then (8 - hb mod 8,
              push_bit (unat (32 - of_nat (Mask netIP) :: uint32)) 1 - 1,
              (32 - of_nat (Mask netIP) - hb) - (8 - hb mod 8),
              push_bit (unat hb) (push_bit (unat (8 - hb mod 8)) 1 - 1))
        else (0, 0xFFFFFFFF, 0, 0))"
proof (cases "ParseCIDR nw")
  case None
  with assms show ?thesis by (simp add: NewSubnetAllocator_def)
next
  case (Some netIP)
  show ?thesis
  proof (cases "hb = 0 \<or> hb > 32 - of_nat (Mask netIP)")
    case True
    with assms Some show ?thesis by (auto simp add: NewSubnetAllocator_def Let_def split: if_splits)
  next
    case False
    let ?c = "hb mod 8 \<noteq> 0 \<and> (hb - 1) div 8 \<noteq> (hb + (32 - of_nat (Mask netIP) - hb) - 1) div 8"
    show ?thesis
    proof (cases ?c)
      case True
      from assms Some False have sna: "sna = \<lparr>network = netIP, hostBits = hb, leftShift = 8 - hb mod 8,
          leftMask = push_bit (unat (32 - of_nat (Mask netIP) :: uint32)) 1 - 1,
          rightShift = (32 - of_nat (Mask netIP) - hb) - (8 - hb mod 8),
          rightMask = push_bit (unat hb) (push_bit (unat (8 - hb mod 8)) 1 - 1),
          next = 0, allocMap = fst (seedAllocMap netIP inUse Map.empty [])\<rparr>"
        unfolding NewSubnetAllocator_def Let_def
        by (simp only: option.case if_P [OF True] prod.case) auto
      show ?thesis
      proof (rule that [of netIP])
        show "(leftShift sna, leftMask sna, rightShift sna, rightMask sna) =
          (if ?c then (8 - hb mod 8,
              push_bit (unat (32 - of_nat (Mask netIP) :: uint32)) 1 - 1,
              (32 - of_nat (Mask netIP) - hb) - (8 - hb mod 8),
              push_bit (unat hb) (push_bit (unat (8 - hb mod 8)) 1 - 1))
           else (0, 0xFFFFFFFF, 0, 0))"
          unfolding if_P [OF True] by (simp add: sna)
      qed (use Some False sna in simp_all)
    next
      case c: False
      from assms Some False have sna: "sna = \<lparr>network = netIP, hostBits = hb, leftShift = 0,
          leftMask = 0xFFFFFFFF, rightShift = 0, rightMask = 0,
          next = 0, allocMap = fst (seedAllocMap netIP inUse Map.empty [])\<rparr>"
        unfolding NewSubnetAllocator_def Let_def
        by (simp only: option.case if_not_P [OF c] prod.case) auto
      show ?thesis
      proof (rule that [of netIP])
        show "(leftShift sna, leftMask sna, rightShift sna, rightMask sna) =
          (if ?c then (8 - hb mod 8,
              push_bit (unat (32 - of_nat (Mask netIP) :: uint32)) 1 - 1,
              (32 - of_nat (Mask netIP) - hb) - (8 - hb mod 8),
              push_bit (unat hb) (push_bit (unat (8 - hb mod 8)) 1 - 1))
           else (0, 0xFFFFFFFF, 0, 0))"
          unfolding if_not_P [OF c] by (simp add: sna)
      qed (use Some False sna in simp_all)
    qed
  qed
qed

lemma NewSubnetAllocator_wfPool:
  assumes "NewSubnetAllocator nw hb inUse = Inr sna"
  shows "wfPool sna"
proof -
  from assms obtain netIP where P: "ParseCIDR nw = Some netIP" and hb0: "hb \<noteq> 0"
    and hbn: "\<not> hb > 32 - of_nat (Mask netIP)"
    and N: "network sna = netIP" and H: "hostBits sna = hb"
    and R: "(leftShift sna, leftMask sna, rightShift sna, rightMask sna) =
       (if hb mod 8 \<noteq> 0 \<and> (hb - 1) div 8 \<noteq> (hb + (32 - of_nat (Mask netIP) - hb) - 1) div 8
        then (8 - hb mod 8,
              push_bit (unat (32 - of_nat (Mask netIP) :: uint32)) 1 - 1,
              (32 - of_nat (Mask netIP) - hb) - (8 - hb mod 8),
              push_bit (unat hb) (push_bit (unat (8 - hb mod 8)) 1 - 1))
        else (0, 0xFFFFFFFF, 0, 0))"
    by (rule NewSubnetAllocator_Inr)
  define p where "p = Mask netIP"
  define h where "h = unat hb"
  define tw :: uint32 where "tw = 32 - of_nat p"
  from P have p32: "p \<le> 32"
    and masked: "IPToUint32 (IP netIP) AND maskWord p = IPToUint32 (IP netIP)"
    unfolding p_def by (rule ParseCIDR_Some)+
  from p32 have utw: "unat tw = 32 - p"
    unfolding tw_def by (rule unat_32_minus)
  from hb0 have h1: "1 \<le> h"
    unfolding h_def using unat_gt_0 [of hb] by simp
  from hbn have hbl: "hb \<le> tw"
    unfolding tw_def p_def by simp
  then have hle: "h \<le> 32 - p"
    unfolding h_def using utw by (simp add: word_le_nat_alt)
  from hbl have usb: "unat (tw - hb) = 32 - p - h"
    unfolding h_def using utw by (simp add: unat_sub)
  let ?c = "hb mod 8 \<noteq> 0 \<and> (hb - 1) div 8 \<noteq> (hb + (tw - hb) - 1) div 8"
  have base: "Mask (network sna) \<le> 32 \<and> 1 \<le> unat (hostBits sna) \<and>
     unat (hostBits sna) + Mask (network sna) \<le> 32 \<and>
     IPToUint32 (IP (network sna)) AND maskWord (Mask (network sna)) = IPToUint32 (IP (network sna))"
    using p32 h1 hle masked by (simp add: N H p_def h_def)
  show ?thesis
  proof (cases ?c)
    case False
    with R have "leftShift sna = 0 \<and> leftMask sna = - 1 \<and> rightShift sna = 0 \<and> rightMask sna = 0"
      unfolding tw_def p_def if_not_P [OF False [unfolded tw_def p_def]] by simp
    with base show ?thesis
      unfolding wfPool_def by blast
  next
    case True
    from R have F: "leftShift sna = 8 - hb mod 8"
      "leftMask sna = push_bit (unat tw) 1 - 1"
      "rightShift sna = (tw - hb) - (8 - hb mod 8)"
      "rightMask sna = push_bit h (push_bit (unat (8 - hb mod 8 :: uint32)) 1 - 1)"
      unfolding tw_def p_def h_def if_P [OF True [unfolded tw_def p_def]] by simp_all
    have m8: "unat (hb mod 8) = h mod 8"
      unfolding h_def by (simp add: unat_mod)
    have "hb mod 8 \<le> 8"
      by (simp add: word_le_nat_alt m8)
    then have uls: "unat (8 - hb mod 8) = 8 - h mod 8"
      using m8 by (simp add: unat_sub)
    from True have "unat (hb mod 8) \<noteq> 0"
      using unat_gt_0 [of "hb mod 8"] by simp
    with m8 have c1: "h mod 8 \<noteq> 0" by simp
    from h1 have "1 \<le> hb"
      unfolding h_def by (simp add: word_le_nat_alt)
    then have uh1: "unat (hb - 1) = h - 1"
      unfolding h_def by (simp add: unat_sub)
    have e: "hb + (tw - hb) - 1 = tw - 1" by simp
    from h1 hle utw have "1 \<le> tw"
      by (simp add: word_le_nat_alt)
    then have ut1: "unat (tw - 1) = 32 - p - 1"
      using utw by (simp add: unat_sub)
    have c2: "(h - 1) div 8 \<noteq> (h + (32 - p - h) - 1) div 8"
    proof
      assume a: "(h - 1) div 8 = (h + (32 - p - h) - 1) div 8"
      have "unat ((hb - 1) div 8) = (h - 1) div 8"
        by (simp add: unat_div uh1)
      moreover have "unat ((tw - 1) div 8) = (32 - p - 1) div 8"
        by (simp add: unat_div ut1)
      moreover from hle have "h + (32 - p - h) - 1 = 32 - p - 1" by simp
      ultimately have "unat ((hb - 1) div 8) = unat ((tw - 1) div 8)"
        using a by simp
      then have "(hb - 1) div 8 = (tw - 1) div 8"
        by (simp only: word_unat_eq_iff)
      with True e show False by simp
    qed
    from c1 c2 h1 have le: "8 - h mod 8 \<le> 32 - p - h"
      by (rule rot_arith)
    then have "8 - hb mod 8 \<le> tw - hb"
      by (simp add: word_le_nat_alt uls usb)
    then have urs: "unat ((tw - hb) - (8 - hb mod 8)) = (32 - p - h) - (8 - h mod 8)"
      using uls usb by (simp add: unat_sub)
    have lm: "leftMask sna = mask (32 - p)"
      unfolding F utw by (simp add: mask_eq_exp_minus_1)
    have rm: "rightMask sna = push_bit h (mask (unat (leftShift sna)))"
      unfolding F by (simp add: mask_eq_exp_minus_1)
    have "unat (leftShift sna) + unat (rightShift sna) = 32 - p - h"
      unfolding F uls urs using le by simp
    with lm rm have "unat (leftShift sna) + unat (rightShift sna) = 32 - Mask (network sna) - unat (hostBits sna) \<and>
       leftMask sna = mask (32 - Mask (network sna)) \<and>
       rightMask sna = push_bit (unat (hostBits sna)) (mask (unat (leftShift sna)))"
      by (simp add: N H p_def h_def)
    with base show ?thesis
      unfolding wfPool_def by blast
  qed
qed

section \<open>The candidate subnets\<close>

lemma wfPool_bits:
  assumes "wfPool sna"
  shows "unat (numSubnetBits_of sna) = 32 - Mask (network sna) - unat (hostBits sna)"
    and "numSubnets_of sna = 2 ^ (32 - Mask (network sna) - unat (hostBits sna))"
    and "32 - Mask (network sna) - unat (hostBits sna) < 32"
proof -
  from assms have p32: "Mask (network sna) \<le> 32" and h1: "1 \<le> unat (hostBits sna)"
    and hp: "unat (hostBits sna) + Mask (network sna) \<le> 32"
    unfolding wfPool_def by blast+
  from p32 have utw: "unat (32 - of_nat (Mask (network sna)) :: uint32) = 32 - Mask (network sna)"
    by (rule unat_32_minus)
  from hp have "hostBits sna \<le> 32 - of_nat (Mask (network sna))"
    by (simp add: word_le_nat_alt utw)
  then show u: "unat (numSubnetBits_of sna) = 32 - Mask (network sna) - unat (hostBits sna)"
    unfolding numSubnetBits_of_def using utw by (simp add: unat_sub)
  show "numSubnets_of sna = 2 ^ (32 - Mask (network sna) - unat (hostBits sna))"
    unfolding numSubnets_of_def u by (simp add: push_bit_eq_mult)
  from h1 show "32 - Mask (network sna) - unat (hostBits sna) < 32"
    by simp
qed

lemma genSubnet_rotated:
  "genSubnet sna b p nb n = \<lparr>IP = Uint32ToIP (b OR rotated sna n), Mask = unat nb + p\<rparr>"
  unfolding genSubnet_def rotated_def Let_def by (simp add: or.assoc)

lemma rotated_bits:
  assumes "wfPool sna"
  defines "h \<equiv> unat (hostBits sna)"
  defines "sb \<equiv> 32 - Mask (network sna) - unat (hostBits sna)"
  shows "\<exists>ls rs. ls + rs = sb \<and>
    (\<forall>n k. n < 2 ^ sb \<longrightarrow>
       (bit (rotated sna n) k \<longleftrightarrow>
          (h + ls \<le> k \<and> k < h + sb \<and> bit n (k - (h + ls))) \<or>
          (h \<le> k \<and> k < h + ls \<and> bit n (k + rs - h))))"
proof -
  from assms(1) have hp: "h + sb \<le> 32" and hsb: "h + sb = 32 - Mask (network sna)"
    unfolding wfPool_def h_def sb_def by auto
  from assms(1) consider
    (id) "leftShift sna = 0" "leftMask sna = - 1" "rightShift sna = 0" "rightMask sna = 0"
  | (rot) "unat (leftShift sna) + unat (rightShift sna) = sb"
       "leftMask sna = mask (h + sb)"
       "rightMask sna = push_bit h (mask (unat (leftShift sna)))"
    unfolding wfPool_def h_def sb_def by auto
  then show ?thesis
  proof cases
    case id
    have "\<forall>n k. n < 2 ^ sb \<longrightarrow>
       (bit (rotated sna n) k \<longleftrightarrow>
          (h + 0 \<le> k \<and> k < h + sb \<and> bit n (k - (h + 0))) \<or>
          (h \<le> k \<and> k < h + 0 \<and> bit n (k + sb - h)))"
    proof (intro allI impI)
      fix n :: uint32 and k
      assume n: "n < 2 ^ sb"
      have "rotated sna n = push_bit h n"
        unfolding rotated_def id h_def by simp
      then show "bit (rotated sna n) k \<longleftrightarrow>
          (h + 0 \<le> k \<and> k < h + sb \<and> bit n (k - (h + 0))) \<or>
          (h \<le> k \<and> k < h + 0 \<and> bit n (k + sb - h))"
        using hp bit_below_2p [OF n, of "k - h"]
        by (auto simp add: bit_simps)
    qed
    then show ?thesis by (intro exI [of _ 0] exI [of _ sb] conjI) simp_all
  next
    case rot
    have "\<forall>n k. n < 2 ^ sb \<longrightarrow>
       (bit (rotated sna n) k \<longleftrightarrow>
          (h + unat (leftShift sna) \<le> k \<and> k < h + sb \<and> bit n (k - (h + unat (leftShift sna)))) \<or>
          (h \<le> k \<and> k < h + unat (leftShift sna) \<and> bit n (k + unat (rightShift sna) - h)))"
    proof (intro allI impI)
      fix n :: uint32 and k
      assume n: "n < 2 ^ sb"
      have "rotated sna n = (push_bit (unat (leftShift sna)) (push_bit h n) AND mask (h + sb)) OR
              (drop_bit (unat (rightShift sna)) (push_bit h n) AND push_bit h (mask (unat (leftShift sna))))"
        unfolding rotated_def rot(2,3) h_def ..
      then show "bit (rotated sna n) k \<longleftrightarrow>
          (h + unat (leftShift sna) \<le> k \<and> k < h + sb \<and> bit n (k - (h + unat (leftShift sna)))) \<or>
          (h \<le> k \<and> k < h + unat (leftShift sna) \<and> bit n (k + unat (rightShift sna) - h))"
        using bit_rotated [OF rot(1) hp n, of k] by simp
    qed
    with rot(1) show ?thesis by blast
  qed
qed

lemma rotated_below:
  assumes "wfPool sna" "n < numSubnets_of sna" "bit (rotated sna n) k"
  shows "k < 32 - Mask (network sna)"
proof -
  let ?sb = "32 - Mask (network sna) - unat (hostBits sna)"
  from assms(1) have hsb: "unat (hostBits sna) + ?sb = 32 - Mask (network sna)"
    unfolding wfPool_def by auto
  from assms(1,2) have n: "n < 2 ^ ?sb"
    by (simp add: wfPool_bits)
  from rotated_bits [OF assms(1)] n assms(3) have "k < unat (hostBits sna) + ?sb"
    by auto
  with hsb show ?thesis by simp
qed

lemma rotated_masked:
  assumes "wfPool sna" "n < numSubnets_of sna"
  shows "rotated sna n AND maskWord (Mask (network sna)) = 0"
proof (rule bit_word_eqI)
  fix k
  show "bit (rotated sna n AND maskWord (Mask (network sna))) k = bit (0 :: uint32) k"
    using rotated_below [OF assms, of k]
    by (auto simp add: maskWord_eq bit_simps)
qed

lemma rotated_inj:
  assumes "wfPool sna" "n < numSubnets_of sna" "m < numSubnets_of sna"
    and e: "rotated sna n = rotated sna m"
  shows "n = m"
proof -
  define h where "h = unat (hostBits sna)"
  define sb where "sb = 32 - Mask (network sna) - unat (hostBits sna)"
  from assms(1-3) have n: "n < 2 ^ sb" and m: "m < 2 ^ sb"
    unfolding sb_def by (simp_all add: wfPool_bits)
  from rotated_bits [OF assms(1)] obtain ls rs where lr: "ls + rs = sb"
    and B: "\<And>x k. x < 2 ^ sb \<Longrightarrow> bit (rotated sna x) k \<longleftrightarrow>
          (h + ls \<le> k \<and> k < h + sb \<and> bit x (k - (h + ls))) \<or>
          (h \<le> k \<and> k < h + ls \<and> bit x (k + rs - h))"
    unfolding h_def sb_def by blast
  show ?thesis
  proof (rule bit_word_eqI)
    fix j
    show "bit n j = bit m j"
    proof (cases "j < sb")
      case False
      with bit_below_2p [OF n, of j] bit_below_2p [OF m, of j] show ?thesis by blast
    next
      case True
      show ?thesis
      proof (cases "j < rs")
        case jr: True
        from lr jr have "bit (rotated sna x) (h + ls + j) = bit x j" if "x < 2 ^ sb" for x
          using B [OF that, of "h + ls + j"] by simp
        with n m e show ?thesis by metis
      next
        case jr: False
        from lr jr True have "bit (rotated sna x) (h + (j - rs)) = bit x j" if "x < 2 ^ sb" for x
        proof -
          from lr jr True have a: "\<not> h + ls \<le> h + (j - rs)" "h \<le> h + (j - rs)"
            "h + (j - rs) < h + ls" "h + (j - rs) + rs - h = j"
            by simp_all
          show ?thesis
            unfolding B [OF that, of "h + (j - rs)"] using a by (simp only: simp_thms)
        qed
        with n m e show ?thesis by metis
      qed
    qed
  qed
qed

lemma candidate_IP:
  "IPToUint32 (IP (candidate sna n)) = IPToUint32 (IP (network sna)) OR rotated sna n"
  unfolding candidate_def genSubnet_rotated by simp


lemma candidate_Contains:
  assumes "wfPool sna" "n < numSubnets_of sna"
  shows "Contains (network sna) (IP (candidate sna n))"
proof -
  from assms(1) have "IPToUint32 (IP (network sna)) AND maskWord (Mask (network sna)) = IPToUint32 (IP (network sna))"
    unfolding wfPool_def by blast
  then show ?thesis
    unfolding Contains_iff candidate_IP
    by (simp add: bit.conj_disj_distrib2 rotated_masked [OF assms])
qed

lemma candidate_inj:
  assumes "wfPool sna" "n < numSubnets_of sna" "m < numSubnets_of sna"
    and e: "candidate sna n = candidate sna m"
  shows "n = m"
proof -
  let ?b = "IPToUint32 (IP (network sna))" and ?M = "maskWord (Mask (network sna))"
  from assms(1) have b: "?b AND ?M = ?b"
    unfolding wfPool_def by blast
  have r: "(?b OR rotated sna x) AND NOT ?M = rotated sna x" if "x < numSubnets_of sna" for x
  proof (rule bit_word_eqI)
    fix k
    have "bit (?b AND ?M) k = bit ?b k"
      by (simp only: b)
    then have b1: "bit ?b k \<Longrightarrow> bit ?M k"
      by (simp add: bit_and_iff)
    have "bit (rotated sna x AND ?M) k = bit (0 :: uint32) k"
      by (simp only: rotated_masked [OF assms(1) that])
    then have r1: "bit (rotated sna x) k \<Longrightarrow> \<not> bit ?M k"
      by (simp add: bit_and_iff)
    show "bit ((?b OR rotated sna x) AND NOT ?M) k = bit (rotated sna x) k"
      using b1 r1 by (auto simp add: bit_and_iff bit_or_iff bit_not_iff dest: bit_imp_le_length)
  qed
  from e have "IPToUint32 (IP (candidate sna n)) = IPToUint32 (IP (candidate sna m))"
    by simp
  then have "?b OR rotated sna n = ?b OR rotated sna m"
    by (simp only: candidate_IP)
  then have "(?b OR rotated sna n) AND NOT ?M = (?b OR rotated sna m) AND NOT ?M"
    by simp
  then have "rotated sna n = rotated sna m"
    by (simp only: r [OF assms(2)] r [OF assms(3)])
  with assms(1-3) show ?thesis by (rule rotated_inj)
qed

lemma candidate_String_inj:
  assumes "wfPool sna" "n < numSubnets_of sna" "m < numSubnets_of sna"
    and "IPNet_String (candidate sna n) = IPNet_String (candidate sna m)"
  shows "n = m"
  using assms by (blast dest: IPNet_String_inj candidate_inj)

section \<open>The scan of GetNetwork\<close>

lemma unat_succ:
  fixes i N :: uint32
  assumes "i < N"
  shows "unat (i + 1) = unat i + 1"
proof -
  from assms have "unat i < unat N"
    by (simp add: word_less_nat_alt)
  moreover have "unat N < 2 ^ 32"
    using unsigned_less [of N, where ?'a = nat] by simp
  ultimately show ?thesis
    by (simp add: unat_word_ariths)
qed

lemma succ_le_iff:
  fixes i j N :: uint32
  assumes "i < N"
  shows "i + 1 \<le> j \<longleftrightarrow> i < j"
  using unat_succ [OF assms] by (simp add: word_le_nat_alt word_less_nat_alt) arith

lemma GetNetwork_loop_result:
  assumes "GetNetwork_loop sna b p nb N i = (r, sna')"
  shows "(\<exists>i'. i \<le> i' \<and> i' < N \<and>
            r = Inr (genSubnet sna b p nb ((i' + next sna) mod N)) \<and>
            \<not> mapGet (allocMap sna) (IPNet_String (genSubnet sna b p nb ((i' + next sna) mod N))) \<and>
            (\<forall>j. i \<le> j \<and> j < i' \<longrightarrow>
               mapGet (allocMap sna) (IPNet_String (genSubnet sna b p nb ((j + next sna) mod N)))) \<and>
            sna' = sna\<lparr>allocMap := (allocMap sna)
                        (IPNet_String (genSubnet sna b p nb ((i' + next sna) mod N)) \<mapsto> True),
                      next := (i' + next sna) mod N + 1\<rparr>)
       \<or> (r = Inl ErrSubnetAllocatorFull \<and> sna' = sna\<lparr>next := 0\<rparr> \<and>
          (\<forall>j. i \<le> j \<and> j < N \<longrightarrow>
             mapGet (allocMap sna) (IPNet_String (genSubnet sna b p nb ((j + next sna) mod N)))))"
  using assms
proof (induction sna b p nb N i rule: GetNetwork_loop.induct)
  case (1 sna b p nb N i)
  let ?key = "\<lambda>j. IPNet_String (genSubnet sna b p nb ((j + next sna) mod N))"
  show ?case
  proof (cases "i < N")
    case False
    with "1.prems" have "r = Inl ErrSubnetAllocatorFull" "sna' = sna\<lparr>next := 0\<rparr>"
      by (simp_all add: GetNetwork_loop.simps [of sna b p nb N i])
    moreover from False have "\<forall>j. i \<le> j \<and> j < N \<longrightarrow> mapGet (allocMap sna) (?key j)"
      by auto
    ultimately show ?thesis by blast
  next
    case lt: True
    show ?thesis
    proof (cases "mapGet (allocMap sna) (?key i)")
      case False
      with lt "1.prems" have "r = Inr (genSubnet sna b p nb ((i + next sna) mod N))"
        "sna' = sna\<lparr>allocMap := (allocMap sna)(?key i \<mapsto> True), next := (i + next sna) mod N + 1\<rparr>"
        by (simp_all add: GetNetwork_loop.simps [of sna b p nb N i])
      moreover have "\<forall>j. i \<le> j \<and> j < i \<longrightarrow> mapGet (allocMap sna) (?key j)"
        by auto
      moreover have "i \<le> i" by simp
      ultimately show ?thesis
        using lt False by blast
    next
      case taken: True
      with lt "1.prems" have "GetNetwork_loop sna b p nb N (i + 1) = (r, sna')"
        by (simp add: GetNetwork_loop.simps [of sna b p nb N i])
      from "1.IH" [OF lt _ this] taken
      consider (found) i' where "i + 1 \<le> i'" "i' < N"
            "r = Inr (genSubnet sna b p nb ((i' + next sna) mod N))"
            "\<not> mapGet (allocMap sna) (?key i')"
            "\<forall>j. i + 1 \<le> j \<and> j < i' \<longrightarrow> mapGet (allocMap sna) (?key j)"
            "sna' = sna\<lparr>allocMap := (allocMap sna)(?key i' \<mapsto> True), next := (i' + next sna) mod N + 1\<rparr>"
        | (full) "r = Inl ErrSubnetAllocatorFull" "sna' = sna\<lparr>next := 0\<rparr>"
            "\<forall>j. i + 1 \<le> j \<and> j < N \<longrightarrow> mapGet (allocMap sna) (?key j)"
        by blast
      then show ?thesis
      proof cases
        case found
        from found(1) have "i \<le> i'"
          using succ_le_iff [OF lt, of i'] by simp
        moreover have "\<forall>j. i \<le> j \<and> j < i' \<longrightarrow> mapGet (allocMap sna) (?key j)"
        proof (intro allI impI)
          fix j assume j: "i \<le> j \<and> j < i'"
          show "mapGet (allocMap sna) (?key j)"
          proof (cases "j = i")
            case True
            with taken show ?thesis by simp
          next
            case False
            with j have "i + 1 \<le> j"
              using succ_le_iff [OF lt, of j] by auto
            with j found(5) show ?thesis by blast
          qed
        qed
        ultimately show ?thesis
          using found(2,3,4,6) by blast
      next
        case full
        have "\<forall>j. i \<le> j \<and> j < N \<longrightarrow> mapGet (allocMap sna) (?key j)"
        proof (intro allI impI)
          fix j assume j: "i \<le> j \<and> j < N"
          show "mapGet (allocMap sna) (?key j)"
          proof (cases "j = i")
            case True
            with taken show ?thesis by simp
          next
            case False
            with j have "i + 1 \<le> j"
              using succ_le_iff [OF lt, of j] by auto
            with j full(3) show ?thesis by blast
          qed
        qed
        with full(1,2) show ?thesis by blast
      qed
    qed
  qed
qed

lemma scan_onto:
  fixes n k :: uint32
  assumes "n < 2 ^ sb" "sb < 32"
  shows "((n - k) mod 2 ^ sb + k) mod 2 ^ sb = n"
proof -
  from assms(2) have "(0 :: uint32) < 2 ^ sb"
    by (simp add: word_neq_0_conv [symmetric])
  then have u2: "uint (2 ^ sb :: uint32) = 2 ^ sb"
    by (rule uint_2p)
  from assms(2) have d: "(2 :: int) ^ sb dvd 2 ^ 32"
    by (intro le_imp_power_dvd) simp
  from assms(1) have "uint n < 2 ^ sb"
    using u2 by (simp add: word_less_def)
  then have n: "uint n mod 2 ^ sb = uint n"
    by simp
  have "uint (((n - k) mod 2 ^ sb + k) mod 2 ^ sb) =
      ((((uint n - uint k) mod 2 ^ 32) mod 2 ^ sb + uint k) mod 2 ^ 32) mod 2 ^ sb"
    by (simp add: uint_mod_distrib uint_word_ariths u2)
  also have "\<dots> = (((uint n - uint k) mod 2 ^ 32) mod 2 ^ sb + uint k) mod 2 ^ sb"
    by (rule mod_mod_cancel [OF d])
  also have "\<dots> = ((uint n - uint k) mod 2 ^ sb + uint k) mod 2 ^ sb"
    by (simp only: mod_mod_cancel [OF d])
  also have "\<dots> = (uint n - uint k + uint k) mod 2 ^ sb"
    by (rule mod_add_left_eq)
  also have "\<dots> = uint n"
    using n by simp
  finally show ?thesis
    by (simp only: word_uint_eq_iff)
qed

lemma wfPool_numSubnets_pos:
  assumes "wfPool sna"
  shows "0 < numSubnets_of sna"
proof -
  from wfPool_bits(3) [OF assms] have "(2 :: uint32) ^ (32 - Mask (network sna) - unat (hostBits sna)) \<noteq> 0"
    by simp
  then show ?thesis
    by (simp only: wfPool_bits(2) [OF assms] word_neq_0_conv)
qed

lemma GetNetwork_candidate:
  "GetNetwork sna = GetNetwork_loop sna (IPToUint32 (IP (network sna))) (Mask (network sna))
     (numSubnetBits_of sna) (numSubnets_of sna) 0"
  unfolding GetNetwork_def Let_def numSubnets_of_def numSubnetBits_of_def ..

lemma GetNetwork_result:
  assumes wf: "wfPool sna" and g: "GetNetwork sna = (r, sna')"
  shows "(\<exists>i. i < numSubnets_of sna \<and>
            r = Inr (candidate sna ((i + next sna) mod numSubnets_of sna)) \<and>
            (i + next sna) mod numSubnets_of sna < numSubnets_of sna \<and>
            \<not> mapGet (allocMap sna) (IPNet_String (candidate sna ((i + next sna) mod numSubnets_of sna))) \<and>
            (\<forall>j. j < i \<longrightarrow>
               mapGet (allocMap sna) (IPNet_String (candidate sna ((j + next sna) mod numSubnets_of sna)))) \<and>
            sna' = sna\<lparr>allocMap := (allocMap sna)
                        (IPNet_String (candidate sna ((i + next sna) mod numSubnets_of sna)) \<mapsto> True),
                      next := (i + next sna) mod numSubnets_of sna + 1\<rparr>)
       \<or> (r = Inl ErrSubnetAllocatorFull \<and> sna' = sna\<lparr>next := 0\<rparr> \<and>
          (\<forall>n. n < numSubnets_of sna \<longrightarrow> mapGet (allocMap sna) (IPNet_String (candidate sna n))))"
proof -
  let ?N = "numSubnets_of sna"
  let ?sb = "32 - Mask (network sna) - unat (hostBits sna)"
  have N: "?N = 2 ^ ?sb" by (rule wfPool_bits(2) [OF wf])
  have pos: "0 < ?N" by (rule wfPool_numSubnets_pos [OF wf])
  from g have "GetNetwork_loop sna (IPToUint32 (IP (network sna))) (Mask (network sna))
     (numSubnetBits_of sna) ?N 0 = (r, sna')"
    by (simp only: GetNetwork_candidate)
  from GetNetwork_loop_result [OF this, folded candidate_def]
  consider (found) i where "i < ?N" "r = Inr (candidate sna ((i + next sna) mod ?N))"
      "\<not> mapGet (allocMap sna) (IPNet_String (candidate sna ((i + next sna) mod ?N)))"
      "\<forall>j. 0 \<le> j \<and> j < i \<longrightarrow> mapGet (allocMap sna) (IPNet_String (candidate sna ((j + next sna) mod ?N)))"
      "sna' = sna\<lparr>allocMap := (allocMap sna)(IPNet_String (candidate sna ((i + next sna) mod ?N)) \<mapsto> True),
                      next := (i + next sna) mod ?N + 1\<rparr>"
    | (full) "r = Inl ErrSubnetAllocatorFull" "sna' = sna\<lparr>next := 0\<rparr>"
      "\<forall>j. 0 \<le> j \<and> j < ?N \<longrightarrow> mapGet (allocMap sna) (IPNet_String (candidate sna ((j + next sna) mod ?N)))"
    by blast
  then show ?thesis
  proof cases
    case found
    from pos have "(i + next sna) mod ?N < ?N"
      by (rule word_mod_less_divisor)
    with found show ?thesis by auto
  next
    case full
    have "\<forall>n. n < ?N \<longrightarrow> mapGet (allocMap sna) (IPNet_String (candidate sna n))"
    proof (intro allI impI)
      fix n assume n: "n < ?N"
      let ?j = "(n - next sna) mod ?N"
      from pos have "?j < ?N" by (rule word_mod_less_divisor)
      with full(3) have "mapGet (allocMap sna) (IPNet_String (candidate sna ((?j + next sna) mod ?N)))"
        by simp
      moreover from n have "(?j + next sna) mod ?N = n"
        unfolding N by (rule scan_onto [OF _ wfPool_bits(3) [OF wf]])
      ultimately show "mapGet (allocMap sna) (IPNet_String (candidate sna n))"
        by simp
    qed
    with full(1,2) show ?thesis by blast
  qed
qed

section \<open>Calls keep the pool\<close>

lemma wfPool_update [simp]:
  "wfPool (sna\<lparr>allocMap := m\<rparr>) = wfPool sna"
  "wfPool (sna\<lparr>next := k\<rparr>) = wfPool sna"
  by (simp_all add: wfPool_def)

lemma numSubnets_of_update [simp]:
  "numSubnets_of (sna\<lparr>allocMap := m\<rparr>) = numSubnets_of sna"
  "numSubnets_of (sna\<lparr>next := k\<rparr>) = numSubnets_of sna"
  by (simp_all add: numSubnets_of_def numSubnetBits_of_def)

lemma candidate_update [simp]:
  "candidate (sna\<lparr>allocMap := m\<rparr>) n = candidate sna n"
  "candidate (sna\<lparr>next := k\<rparr>) n = candidate sna n"
  by (simp_all add: candidate_def genSubnet_def numSubnetBits_of_def)

lemma GetNetwork_fields:
  assumes "wfPool sna" "GetNetwork sna = (r, sna')"
  shows "\<exists>m k. sna' = sna\<lparr>allocMap := m, next := k\<rparr>"
  using GetNetwork_result [OF assms]
  by (metis SubnetAllocator.surjective SubnetAllocator.update_convs(7,8))

lemma ReleaseNetwork_fields:
  assumes "ReleaseNetwork sna ipnet = (r, sna')"
  shows "\<exists>m. sna' = sna\<lparr>allocMap := m\<rparr>"
proof (cases "r")
  case None
  with assms have "sna' = sna\<lparr>allocMap := (allocMap sna)(IPNet_String ipnet \<mapsto> False)\<rparr>"
    by (auto simp add: ReleaseNetwork_def Let_def split: if_splits)
  then show ?thesis by blast
next
  case (Some e)
  with assms have "sna' = sna"
    by (auto simp add: ReleaseNetwork_def Let_def split: if_splits)
  then have "sna' = sna\<lparr>allocMap := allocMap sna\<rparr>" by simp
  then show ?thesis by blast
qed

lemma runCall_wfPool:
  assumes "wfPool sna" "runCall sna c = (r, sna')"
  shows "wfPool sna' \<and> network sna' = network sna \<and> hostBits sna' = hostBits sna \<and>
         numSubnets_of sna' = numSubnets_of sna"
proof (cases c)
  case Allocate
  with assms(2) obtain g where "GetNetwork sna = (g, sna')"
    by (auto split: prod.splits)
  from GetNetwork_fields [OF assms(1) this] obtain m k where "sna' = sna\<lparr>allocMap := m, next := k\<rparr>"
    by blast
  with assms(1) show ?thesis by simp
next
  case (Release ipnet)
  with assms(2) obtain g where "ReleaseNetwork sna ipnet = (g, sna')"
    by (auto split: prod.splits)
  from ReleaseNetwork_fields [OF this] obtain m where "sna' = sna\<lparr>allocMap := m\<rparr>"
    by blast
  with assms(1) show ?thesis by simp
qed

lemma runCalls_wfPool:
  assumes "wfPool sna" "runCalls sna cs = (rs, sna')"
  shows "wfPool sna' \<and> network sna' = network sna \<and> hostBits sna' = hostBits sna \<and>
         numSubnets_of sna' = numSubnets_of sna"
  using assms
proof (induction cs arbitrary: sna rs)
  case Nil
  then show ?case by simp
next
  case (Cons c cs)
  from Cons.prems(2) obtain r s1 rs' where c: "runCall sna c = (r, s1)" and cs: "runCalls s1 cs = (rs', sna')"
    by (auto split: prod.splits)
  from runCall_wfPool [OF Cons.prems(1) c] Cons.IH [OF _ cs] show ?case
    by simp
qed

section \<open>The seeding loop and subnets in use\<close>





section \<open>Allocating from an empty map\<close>

lemma freshState_simps [simp]:
  "wfPool (freshState sna k) = wfPool sna"
  "numSubnets_of (freshState sna k) = numSubnets_of sna"
  "candidate (freshState sna k) n = candidate sna n"
  "next (freshState sna k) = of_nat k"
  "network (freshState sna k) = network sna"
  "hostBits (freshState sna k) = hostBits sna"
  by (simp_all add: freshState_def)

lemma of_nat_below:
  fixes N :: uint32
  assumes "i < unat N"
  shows "unat (of_nat i :: uint32) = i" and "(of_nat i :: uint32) < N"
proof -
  have "unat N < 2 ^ 32"
    using unsigned_less [of N, where ?'a = nat] by simp
  with assms have "i < 2 ^ 32" by simp
  then show u: "unat (of_nat i :: uint32) = i"
    by (simp add: unat_of_nat)
  with assms show "(of_nat i :: uint32) < N"
    by (simp add: word_less_nat_alt)
qed

lemma freshState_taken:
  assumes wf: "wfPool sna" and j: "j < unat (numSubnets_of sna)" and k: "k \<le> unat (numSubnets_of sna)"
  shows "mapGet (allocMap (freshState sna k)) (IPNet_String (candidate sna (of_nat j))) \<longleftrightarrow> j < k"
proof -
  have inj: "i = j" if "i < k" "IPNet_String (candidate sna (of_nat j)) = IPNet_String (candidate sna (of_nat i))" for i
  proof -
    from that(1) k have i: "i < unat (numSubnets_of sna)" by simp
    from candidate_String_inj [OF wf of_nat_below(2) [OF j] of_nat_below(2) [OF i] that(2)]
    have "(of_nat j :: uint32) = of_nat i" .
    then have "unat (of_nat j :: uint32) = unat (of_nat i :: uint32)" by simp
    then show ?thesis
      by (simp only: of_nat_below(1) [OF i] of_nat_below(1) [OF j])
  qed
  show ?thesis
    by (auto simp add: freshState_def mapGet_def dest: inj)
qed

lemma GetNetwork_fresh:
  assumes wf: "wfPool sna" and k: "k < unat (numSubnets_of sna)"
  shows "GetNetwork (freshState sna k) = (Inr (candidate sna (of_nat k)), freshState sna (Suc k))"
proof -
  let ?N = "numSubnets_of sna"
  let ?fs = "freshState sna k"
  obtain r s' where g: "GetNetwork ?fs = (r, s')"
    by (cases "GetNetwork ?fs")
  from wf have wf': "wfPool ?fs" by simp
  from k have kN: "(of_nat k :: uint32) < ?N" by (rule of_nat_below)
  from freshState_taken [OF wf k, of k] k
  have free: "\<not> mapGet (allocMap ?fs) (IPNet_String (candidate sna (of_nat k)))"
    by simp
  from GetNetwork_result [OF wf' g, unfolded freshState_simps]
  consider (found) i where "i < ?N" "r = Inr (candidate sna ((i + of_nat k) mod ?N))"
      "\<forall>j. j < i \<longrightarrow> mapGet (allocMap ?fs) (IPNet_String (candidate sna ((j + of_nat k) mod ?N)))"
      "s' = ?fs\<lparr>allocMap := (allocMap ?fs)(IPNet_String (candidate sna ((i + of_nat k) mod ?N)) \<mapsto> True),
                 next := (i + of_nat k) mod ?N + 1\<rparr>"
    | (full) "\<forall>n. n < ?N \<longrightarrow> mapGet (allocMap ?fs) (IPNet_String (candidate sna n))"
    by blast
  then show ?thesis
  proof cases
    case full
    with kN free show ?thesis by blast
  next
    case found
    have i0: "i = 0"
    proof (rule ccontr)
      assume "i \<noteq> 0"
      then have "0 < i" by (simp add: word_neq_0_conv)
      with found(3) have "mapGet (allocMap ?fs) (IPNet_String (candidate sna ((0 + of_nat k) mod ?N)))"
        by blast
      with free show False
        by (simp add: mod_word_less [OF kN])
    qed
    have e: "(i + of_nat k) mod ?N = of_nat k"
      by (simp add: i0 mod_word_less [OF kN])
    have m: "(\<lambda>s. if \<exists>i<k. s = IPNet_String (candidate sna (of_nat i)) then Some True else None)
          (IPNet_String (candidate sna (of_nat k)) \<mapsto> True) =
        (\<lambda>s. if \<exists>i<Suc k. s = IPNet_String (candidate sna (of_nat i)) then Some True else None)"
      by (auto simp add: fun_eq_iff less_Suc_eq)
    have n: "(of_nat k :: uint32) + 1 = of_nat (Suc k)"
      by simp
    have "s' = sna\<lparr>allocMap := (\<lambda>s. if \<exists>i<k. s = IPNet_String (candidate sna (of_nat i)) then Some True else None)
          (IPNet_String (candidate sna (of_nat k)) \<mapsto> True), next := of_nat k + 1\<rparr>"
      by (simp add: found(4) e freshState_def)
    then have "s' = freshState sna (Suc k)"
      by (simp only: freshState_def m n)
    with found(2) e g show ?thesis by simp
  qed
qed

lemma runCalls_fresh:
  assumes wf: "wfPool sna" and km: "k + m \<le> unat (numSubnets_of sna)"
  shows "runCalls (freshState sna k) (replicate m Allocate) =
     (map (\<lambda>i. Allocated (Inr (candidate sna (of_nat i)))) [k..<k + m], freshState sna (k + m))"
  using km
proof (induction m arbitrary: k)
  case 0
  then show ?case by simp
next
  case (Suc m)
  from Suc.prems have k: "k < unat (numSubnets_of sna)" and km: "Suc k + m \<le> unat (numSubnets_of sna)"
    by simp_all
  have u: "[k..<k + Suc m] = k # [Suc k..<Suc k + m]"
    by (simp add: upt_conv_Cons)
  show ?case
    unfolding u by (simp add: GetNetwork_fresh [OF wf k] Suc.IH [OF km])
qed

lemma freshState_0:
  assumes "NewSubnetAllocator network' hostBits' [] = Inr sna"
  shows "freshState sna 0 = sna"
proof -
  from assms obtain netIP where "next sna = 0" "allocMap sna = fst (seedAllocMap netIP [] Map.empty [])"
    by (rule NewSubnetAllocator_Inr)
  then show ?thesis
    by (simp add: freshState_def)
qed




section \<open>The example pool 10.1.0.0/16 with 6 host bits\<close>

lemma unat_2p:
  assumes "n < 32"
  shows "unat (2 ^ n :: uint32) = 2 ^ n"
proof -
  from assms have "(2 :: nat) ^ n < 2 ^ 32"
    by (intro power_strict_increasing) simp_all
  then have "(2 :: nat) ^ n mod 2 ^ 32 = 2 ^ n"
    by (rule mod_less)
  with unat_of_nat [of "2 ^ n", where ?'a = 32] show ?thesis
    by simp
qed

lemma unat_numSubnets:
  assumes "wfPool sna"
  shows "unat (numSubnets_of sna) = 2 ^ (32 - Mask (network sna) - unat (hostBits sna))"
  unfolding wfPool_bits(2) [OF assms] by (rule unat_2p [OF wfPool_bits(3) [OF assms]])

lemma ucast_byte_back:
  fixes n :: uint32
  assumes "n < 2 ^ 8"
  shows "(ucast (ucast n :: byte) :: uint32) = n"
  by (rule bit_word_eqI) (auto simp add: bit_simps dest: bit_below_2p [OF assms])

lemma of_nat_byte:
  assumes "i < 256"
  shows "(of_nat i :: byte) = ucast (of_nat i :: uint32)"
  using assms by (simp add: unsigned_of_nat take_bit_nat_eq_self)

lemma of_nat_lt_256:
  assumes "i < 256"
  shows "(of_nat i :: uint32) < 2 ^ 8"
  using assms by (simp add: word_less_nat_alt unat_of_nat)

lemma rotate_10_1_example:
  fixes n :: uint32
  assumes "n < 2 ^ 8"
  shows "(push_bit 2 (push_bit 6 n) AND 0xFFFF) OR (drop_bit 8 (push_bit 6 n) AND 0xC0) = push_bit 8 n"
proof -
  have m1: "(0xFFFF :: uint32) = mask (6 + 10)"
    by (simp add: mask_eq_exp_minus_1)
  have m2: "(0xC0 :: uint32) = push_bit 6 (mask 2)"
    by (simp add: mask_eq_exp_minus_1)
  have "(2 :: uint32) ^ 8 < 2 ^ 10" by simp
  with assms have n10: "n < 2 ^ 10"
    by (rule order_less_trans)
  have r: "bit ((push_bit 2 (push_bit 6 n) AND mask (6 + 10)) OR
              (drop_bit 8 (push_bit 6 n) AND push_bit 6 (mask 2))) k \<longleftrightarrow>
         (6 + 2 \<le> k \<and> k < 6 + 10 \<and> bit n (k - (6 + 2))) \<or>
         (6 \<le> k \<and> k < 6 + 2 \<and> bit n (k + 8 - 6))" for k
    by (rule bit_rotated [OF _ _ n10]) simp_all
  have p: "bit (push_bit 8 n) k \<longleftrightarrow> 8 \<le> k \<and> k < 32 \<and> bit n (k - 8)" for k
    by (auto simp add: bit_simps)
  have "bit ((push_bit 2 (push_bit 6 n) AND mask (6 + 10)) OR
              (drop_bit 8 (push_bit 6 n) AND push_bit 6 (mask 2))) k = bit (push_bit 8 n) k" for k
    unfolding r p
    using bit_below_2p [OF assms, of "k - 8"] bit_below_2p [OF assms, of "k + 8 - 6"]
    by auto
  then show ?thesis
    unfolding m1 m2 by (intro bit_word_eqI) blast
qed

lemma candidate_10_1_example:
  assumes "i < 256"
  shows "candidate \<lparr>network = \<lparr>IP = IPv4 10 1 0 0, Mask = 16\<rparr>, hostBits = 6, leftShift = 2,
          leftMask = 0xFFFF, rightShift = 8, rightMask = 0xC0, next = 0, allocMap = Map.empty\<rparr> (of_nat i) =
     \<lparr>IP = IPv4 10 1 (of_nat i) 0, Mask = 26\<rparr>"
proof -
  let ?n = "of_nat i :: uint32"
  let ?sna = "\<lparr>network = \<lparr>IP = IPv4 10 1 0 0, Mask = 16\<rparr>, hostBits = 6, leftShift = 2,
          leftMask = 0xFFFF, rightShift = 8, rightMask = 0xC0, next = 0, allocMap = Map.empty\<rparr>"
  from assms have n: "?n < 2 ^ 8" by (rule of_nat_lt_256)
  have r: "rotated ?sna ?n = push_bit 8 ?n"
    unfolding rotated_def using rotate_10_1_example [OF n] by simp
  have b: "IPToUint32 (IP (network ?sna)) = 0x0A010000"
    by (simp add: IPToUint32_def BigEndian_Uint32_def)
  have "IPToUint32 (IPv4 10 1 (ucast ?n) 0) = push_bit 8 (ucast (ucast ?n :: byte)) OR 0x0A010000"
    by (simp add: IPToUint32_def BigEndian_Uint32_def)
  then have "IPToUint32 (IPv4 10 1 (of_nat i) 0) = 0x0A010000 OR push_bit 8 ?n"
    unfolding of_nat_byte [OF assms] ucast_byte_back [OF n] by (simp only: or.commute)
  then have "IPToUint32 (IPv4 10 1 (of_nat i) 0) = IPToUint32 (IP (candidate ?sna ?n))"
    unfolding candidate_IP b r .
  then have "IP (candidate ?sna ?n) = IPv4 10 1 (of_nat i) 0"
    by (rule IPToUint32_inj [symmetric])
  moreover have "Mask (candidate ?sna ?n) = 26"
    unfolding candidate_def genSubnet_rotated numSubnetBits_of_def by simp
  ultimately show ?thesis
    by (cases "candidate ?sna ?n") simp
qed

section \<open>The configuration parser\<close>













section \<open>Parsing the text that String prints\<close>
















section \<open>Evaluation on concrete inputs\<close>

lemmas parse_eval = ParseCIDR_def ParseAddr_def parseIPv4_def isDigit_def digitVal_def dtoi_def
  BigEndian_PutUint32_def maskWord_def

lemmas alloc_eval = NewSubnetAllocator_def GetNetwork_def GetNetwork_loop.simps genSubnet_def
  ReleaseNetwork_def mapGet_def IPNet_String_def itoa.simps digitChar_def Uint32ToIP_def
  IPToUint32_def BigEndian_Uint32_def Contains_def

lemma ex_new:
  "NewSubnetAllocator ''10.1.0.0/24'' 6 [] =
     Inr \<lparr>network = \<lparr>IP = IPv4 10 1 0 0, Mask = 24\<rparr>, hostBits = 6, leftShift = 0,
          leftMask = 0xFFFFFFFF, rightShift = 0, rightMask = 0, next = 0, allocMap = Map.empty\<rparr>"
  by (simp add: parse_eval alloc_eval)

lemma ex_get:
  "GetNetwork \<lparr>network = \<lparr>IP = IPv4 10 1 0 0, Mask = 24\<rparr>, hostBits = 6, leftShift = 0,
          leftMask = 0xFFFFFFFF, rightShift = 0, rightMask = 0, next = 0, allocMap = Map.empty\<rparr> =
     (Inr \<lparr>IP = IPv4 10 1 0 0, Mask = 26\<rparr>,
      \<lparr>network = \<lparr>IP = IPv4 10 1 0 0, Mask = 24\<rparr>, hostBits = 6, leftShift = 0,
          leftMask = 0xFFFFFFFF, rightShift = 0, rightMask = 0, next = 1,
          allocMap = [''10.1.0.0/26'' \<mapsto> True]\<rparr>)"
  by (simp add: parse_eval alloc_eval)

lemma ex_get2:
  "GetNetwork \<lparr>network = \<lparr>IP = IPv4 10 1 0 0, Mask = 24\<rparr>, hostBits = 6, leftShift = 0,
          leftMask = 0xFFFFFFFF, rightShift = 0, rightMask = 0, next = 1,
          allocMap = [''10.1.0.0/26'' \<mapsto> True]\<rparr> =
     (Inr \<lparr>IP = IPv4 10 1 0 64, Mask = 26\<rparr>,
      \<lparr>network = \<lparr>IP = IPv4 10 1 0 0, Mask = 24\<rparr>, hostBits = 6, leftShift = 0,
          leftMask = 0xFFFFFFFF, rightShift = 0, rightMask = 0, next = 2,
          allocMap = [''10.1.0.0/26'' \<mapsto> True, ''10.1.0.64/26'' \<mapsto> True]\<rparr>)"
  by (simp add: parse_eval alloc_eval)

lemma ex_new8:
  "NewSubnetAllocator ''10.1.0.0/24'' 8 [] =
     Inr \<lparr>network = \<lparr>IP = IPv4 10 1 0 0, Mask = 24\<rparr>, hostBits = 8, leftShift = 0,
          leftMask = 0xFFFFFFFF, rightShift = 0, rightMask = 0, next = 0, allocMap = Map.empty\<rparr>"
  by (simp add: parse_eval alloc_eval)

lemma ex_get8:
  "GetNetwork \<lparr>network = \<lparr>IP = IPv4 10 1 0 0, Mask = 24\<rparr>, hostBits = 8, leftShift = 0,
          leftMask = 0xFFFFFFFF, rightShift = 0, rightMask = 0, next = 0, allocMap = Map.empty\<rparr> =
     (Inr \<lparr>IP = IPv4 10 1 0 0, Mask = 24\<rparr>,
      \<lparr>network = \<lparr>IP = IPv4 10 1 0 0, Mask = 24\<rparr>, hostBits = 8, leftShift = 0,
          leftMask = 0xFFFFFFFF, rightShift = 0, rightMask = 0, next = 1,
          allocMap = [''10.1.0.0/24'' \<mapsto> True]\<rparr>)"
  by (simp add: parse_eval alloc_eval)


lemma ex_new16:
  "NewSubnetAllocator ''10.1.0.0/16'' 6 [] =
     Inr \<lparr>network = \<lparr>IP = IPv4 10 1 0 0, Mask = 16\<rparr>, hostBits = 6, leftShift = 2,
          leftMask = 0xFFFF, rightShift = 8, rightMask = 0xC0, next = 0, allocMap = Map.empty\<rparr>"
  by (simp add: parse_eval alloc_eval)





section \<open>The claims\<close>

text \<open>
  C1. On the allocator built over 10.1.0.0/16 with 6 host bits and no preallocated
  subnet, the first 256 calls of \<^verbatim>\<open>GetNetwork\<close> return 10.1.0.0/26, 10.1.1.0/26, ...,
  10.1.255.0/26 in this order (as networks and as canonical CIDR strings), and no
  subnet 10.1.x.64/26 is among them.
\<close>

theorem C1_rotation_example:
  assumes "NewSubnetAllocator ''10.1.0.0/16'' 6 [] = Inr sna"
  shows "fst (runCalls sna (replicate 256 Allocate)) =
           map (\<lambda>i. Allocated (Inr \<lparr>IP = IPv4 10 1 (of_nat i) 0, Mask = 26\<rparr>)) [0..<256] \<and>
         map (\<lambda>i. IPNet_String \<lparr>IP = IPv4 10 1 (of_nat i) 0, Mask = 26\<rparr>) [0..<256] =
           map (\<lambda>i. ''10.1.'' @ itoa i @ ''.0/26'') [0..<256] \<and>
         Allocated (Inr \<lparr>IP = IPv4 10 1 x 64, Mask = 26\<rparr>) \<notin> set (fst (runCalls sna (replicate 256 Allocate)))"
proof -
  let ?sna = "\<lparr>network = \<lparr>IP = IPv4 10 1 0 0, Mask = 16\<rparr>, hostBits = 6, leftShift = 2,
          leftMask = 0xFFFF, rightShift = 8, rightMask = 0xC0, next = 0, allocMap = Map.empty\<rparr>"
  from assms have sna: "sna = ?sna"
    by (simp add: ex_new16)
  from assms have wf: "wfPool sna" by (rule NewSubnetAllocator_wfPool)
  have "unat (numSubnets_of sna) = 2 ^ (32 - Mask (network sna) - unat (hostBits sna))"
    by (rule unat_numSubnets [OF wf])
  then have N: "0 + 256 \<le> unat (numSubnets_of sna)"
    by (simp add: sna)
  have "runCalls (freshState sna 0) (replicate 256 Allocate) =
     (map (\<lambda>i. Allocated (Inr (candidate sna (of_nat i)))) [0..<0 + 256], freshState sna (0 + 256))"
    by (rule runCalls_fresh [OF wf N])
  then have "fst (runCalls sna (replicate 256 Allocate)) =
      map (\<lambda>i. Allocated (Inr (candidate sna (of_nat i)))) [0..<256]"
    by (simp add: freshState_0 [OF assms])
  also have "\<dots> = map (\<lambda>i. Allocated (Inr \<lparr>IP = IPv4 10 1 (of_nat i) 0, Mask = 26\<rparr>)) [0..<256]"
    unfolding sna by (rule map_cong) (simp_all add: candidate_10_1_example)
  finally have A: "fst (runCalls sna (replicate 256 Allocate)) =
      map (\<lambda>i. Allocated (Inr \<lparr>IP = IPv4 10 1 (of_nat i) 0, Mask = 26\<rparr>)) [0..<256]" .
  have B: "map (\<lambda>i. IPNet_String \<lparr>IP = IPv4 10 1 (of_nat i) 0, Mask = 26\<rparr>) [0..<256] =
           map (\<lambda>i. ''10.1.'' @ itoa i @ ''.0/26'') [0..<256]"
  proof (rule map_cong)
    fix i assume "i \<in> set [0..<256]"
    then have "i < 256" by simp
    then have "unat (of_nat i :: byte) = i"
      by (simp add: unat_of_nat)
    moreover have "itoa 10 = ''10''" "itoa (Suc 0) = ''1''" "itoa 0 = ''0''" "itoa 26 = ''26''"
      by (simp_all add: itoa.simps digitChar_def)
    ultimately show "IPNet_String \<lparr>IP = IPv4 10 1 (of_nat i) 0, Mask = 26\<rparr> = ''10.1.'' @ itoa i @ ''.0/26''"
      by (simp add: IPNet_String_def)
  qed simp
  have C: "Allocated (Inr \<lparr>IP = IPv4 10 1 x 64, Mask = 26\<rparr>) \<notin> set (fst (runCalls sna (replicate 256 Allocate)))"
    unfolding A by auto
  from A B C show ?thesis by blast
qed

theorem C1_rotation_example_witness:
  "fst (runCalls \<lparr>network = \<lparr>IP = IPv4 10 1 0 0, Mask = 16\<rparr>, hostBits = 6, leftShift = 2,
          leftMask = 0xFFFF, rightShift = 8, rightMask = 0xC0, next = 0, allocMap = Map.empty\<rparr>
        (replicate 256 Allocate)) =
     map (\<lambda>i. Allocated (Inr \<lparr>IP = IPv4 10 1 (of_nat i) 0, Mask = 26\<rparr>)) [0..<256] \<and>
   Allocated (Inr \<lparr>IP = IPv4 10 1 7 64, Mask = 26\<rparr>) \<notin>
     set (fst (runCalls \<lparr>network = \<lparr>IP = IPv4 10 1 0 0, Mask = 16\<rparr>, hostBits = 6, leftShift = 2,
          leftMask = 0xFFFF, rightShift = 8, rightMask = 0xC0, next = 0, allocMap = Map.empty\<rparr>
        (replicate 256 Allocate)))"
  using C1_rotation_example [OF ex_new16, of 7] by blast



text \<open>
  C3. On an allocator built by \<^verbatim>\<open>NewSubnetAllocator\<close> and used through any sequence
  of calls: when \<^verbatim>\<open>GetNetwork\<close> returns the subnet \<open>S\<close>, releasing \<open>S\<close> at once
  succeeds, and releasing it a second time fails with \<open>AlreadyFree\<close>.
\<close>

theorem C3_round_trip:
  assumes "NewSubnetAllocator network' hostBits' inUse = Inr sna0"
    and "runCalls sna0 calls = (outcomes, sna)"
    and "GetNetwork sna = (Inr S, sna1)"
  shows "\<exists>sna2. ReleaseNetwork sna1 S = (None, sna2) \<and>
           ReleaseNetwork sna2 S = (Some ErrAlreadyAvailable, sna2)"
proof -
  from assms(1) have "wfPool sna0" by (rule NewSubnetAllocator_wfPool)
  with assms(2) have wf: "wfPool sna" by (simp add: runCalls_wfPool)
  from GetNetwork_result [OF wf assms(3)] obtain n where n: "n < numSubnets_of sna"
    and S: "S = candidate sna n"
    and s1: "sna1 = sna\<lparr>allocMap := (allocMap sna)(IPNet_String (candidate sna n) \<mapsto> True), next := n + 1\<rparr>"
    by auto
  from candidate_Contains [OF wf n] have c: "Contains (network sna1) (IP S)"
    by (simp add: S s1)
  have "allocMap sna1 (IPNet_String S) = Some True"
    by (simp add: S s1)
  with c have r1: "ReleaseNetwork sna1 S = (None, sna1\<lparr>allocMap := (allocMap sna1)(IPNet_String S \<mapsto> False)\<rparr>)"
    by (simp add: ReleaseNetwork_def mapGet_def)
  from c have "ReleaseNetwork (sna1\<lparr>allocMap := (allocMap sna1)(IPNet_String S \<mapsto> False)\<rparr>) S =
      (Some ErrAlreadyAvailable, sna1\<lparr>allocMap := (allocMap sna1)(IPNet_String S \<mapsto> False)\<rparr>)"
    by (simp add: ReleaseNetwork_def mapGet_def)
  with r1 show ?thesis by blast
qed

theorem C3_round_trip_witness:
  "\<exists>sna2. ReleaseNetwork \<lparr>network = \<lparr>IP = IPv4 10 1 0 0, Mask = 24\<rparr>, hostBits = 6, leftShift = 0,
          leftMask = 0xFFFFFFFF, rightShift = 0, rightMask = 0, next = 2,
          allocMap = [''10.1.0.0/26'' \<mapsto> True, ''10.1.0.64/26'' \<mapsto> True]\<rparr>
          \<lparr>IP = IPv4 10 1 0 64, Mask = 26\<rparr> = (None, sna2) \<and>
     ReleaseNetwork sna2 \<lparr>IP = IPv4 10 1 0 64, Mask = 26\<rparr> = (Some ErrAlreadyAvailable, sna2)"
proof -
  have "runCalls \<lparr>network = \<lparr>IP = IPv4 10 1 0 0, Mask = 24\<rparr>, hostBits = 6, leftShift = 0,
          leftMask = 0xFFFFFFFF, rightShift = 0, rightMask = 0, next = 0, allocMap = Map.empty\<rparr> [Allocate] =
      ([Allocated (Inr \<lparr>IP = IPv4 10 1 0 0, Mask = 26\<rparr>)],
       \<lparr>network = \<lparr>IP = IPv4 10 1 0 0, Mask = 24\<rparr>, hostBits = 6, leftShift = 0,
          leftMask = 0xFFFFFFFF, rightShift = 0, rightMask = 0, next = 1,
          allocMap = [''10.1.0.0/26'' \<mapsto> True]\<rparr>)"
    by (simp add: ex_get)
  from C3_round_trip [OF ex_new this ex_get2] show ?thesis .
qed

text \<open>
  C4. \<^verbatim>\<open>ReleaseNetwork\<close> answers \<open>NotInPool\<close> when the pool's network does not
  contain the subnet's address; otherwise \<open>AlreadyFree\<close> when the canonical CIDR string
  is missing from the map or stored as free; otherwise it succeeds, stores the string
  as free and changes nothing else. In every case the keys of the map stay, and
  \<^verbatim>\<open>GetNetwork\<close> removes no key either.
\<close>

theorem C4_release:
  "(\<not> Contains (network sna) (IP ipnet) \<longrightarrow>
       ReleaseNetwork sna ipnet = (Some ErrNotInNetwork, sna)) \<and>
   (Contains (network sna) (IP ipnet) \<and>
      (allocMap sna (IPNet_String ipnet) = None \<or> allocMap sna (IPNet_String ipnet) = Some False) \<longrightarrow>
       ReleaseNetwork sna ipnet = (Some ErrAlreadyAvailable, sna)) \<and>
   (Contains (network sna) (IP ipnet) \<and> allocMap sna (IPNet_String ipnet) = Some True \<longrightarrow>
       ReleaseNetwork sna ipnet = (None, sna\<lparr>allocMap := (allocMap sna)(IPNet_String ipnet \<mapsto> False)\<rparr>) \<and>
       dom (allocMap (snd (ReleaseNetwork sna ipnet))) = dom (allocMap sna)) \<and>
   dom (allocMap sna) \<subseteq> dom (allocMap (snd (ReleaseNetwork sna ipnet))) \<and>
   dom (allocMap sna) \<subseteq> dom (allocMap (snd (GetNetwork sna)))"
proof -
  have g: "dom (allocMap sna) \<subseteq> dom (allocMap (snd (GetNetwork_loop sna b p nb N i)))" for b p nb N i
  proof -
    obtain r sna' where l: "GetNetwork_loop sna b p nb N i = (r, sna')"
      by (cases "GetNetwork_loop sna b p nb N i")
    from GetNetwork_loop_result [OF l] have "dom (allocMap sna) \<subseteq> dom (allocMap sna')"
      by auto
    with l show ?thesis by simp
  qed
  have "dom (allocMap sna) \<subseteq> dom (allocMap (snd (GetNetwork sna)))"
    unfolding GetNetwork_candidate by (rule g)
  then show ?thesis
    by (auto simp add: ReleaseNetwork_def mapGet_def Let_def split: option.splits)
qed

theorem C4_release_witness:
  "Contains \<lparr>IP = IPv4 10 1 0 0, Mask = 24\<rparr> (IPv4 10 1 0 0) \<and>
   ReleaseNetwork \<lparr>network = \<lparr>IP = IPv4 10 1 0 0, Mask = 24\<rparr>, hostBits = 6, leftShift = 0,
          leftMask = 0xFFFFFFFF, rightShift = 0, rightMask = 0, next = 1,
          allocMap = [''10.1.0.0/26'' \<mapsto> True]\<rparr> \<lparr>IP = IPv4 10 1 0 0, Mask = 26\<rparr> =
     (None,
      \<lparr>network = \<lparr>IP = IPv4 10 1 0 0, Mask = 24\<rparr>, hostBits = 6, leftShift = 0,
          leftMask = 0xFFFFFFFF, rightShift = 0, rightMask = 0, next = 1,
          allocMap = [''10.1.0.0/26'' \<mapsto> False]\<rparr>)"
  using C4_release [of "\<lparr>network = \<lparr>IP = IPv4 10 1 0 0, Mask = 24\<rparr>, hostBits = 6, leftShift = 0,
          leftMask = 0xFFFFFFFF, rightShift = 0, rightMask = 0, next = 1,
          allocMap = [''10.1.0.0/26'' \<mapsto> True]\<rparr>" "\<lparr>IP = IPv4 10 1 0 0, Mask = 26\<rparr>"]
  by (simp add: parse_eval alloc_eval)





text \<open>
  C7, as the code has it. The stored cursor is reduced modulo the number of subnets
  when \<^verbatim>\<open>GetNetwork\<close> reads it, not when it is written: after any sequence of calls
  on a constructed allocator the stored value is at most the number of subnets, and
  every index the scan computes from it is strictly below that number.
\<close>

theorem C7_cursor_bound:
  assumes "NewSubnetAllocator network' hostBits' inUse = Inr sna0"
    and "runCalls sna0 calls = (outcomes, sna)"
  shows "next sna \<le> numSubnets_of sna \<and> (i + next sna) mod numSubnets_of sna < numSubnets_of sna"
proof -
  from assms(1) have wf0: "wfPool sna0" by (rule NewSubnetAllocator_wfPool)
  from assms(1) have n0: "next sna0 = 0"
    by (rule NewSubnetAllocator_Inr)
  have step: "next s' \<le> numSubnets_of s'"
    if "wfPool s" "next s \<le> numSubnets_of s" "runCall s c = (r, s')" for s s' c r
  proof (cases c)
    case Allocate
    with that(3) obtain g where g: "GetNetwork s = (g, s')"
      by (auto split: prod.splits)
    from GetNetwork_result [OF that(1) g]
    consider n where "n < numSubnets_of s" "next s' = n + 1" "numSubnets_of s' = numSubnets_of s"
      | "next s' = 0"
      by auto
    then show ?thesis
    proof cases
      case 1
      from inc_le [OF 1(1)] 1(2,3) show ?thesis by simp
    next
      case 2
      then show ?thesis by simp
    qed
  next
    case (Release ipnet)
    with that(3) obtain g where "ReleaseNetwork s ipnet = (g, s')"
      by (auto split: prod.splits)
    from ReleaseNetwork_fields [OF this] that(2) show ?thesis by auto
  qed
  have inv: "wfPool s \<Longrightarrow> next s \<le> numSubnets_of s \<Longrightarrow> runCalls s cs = (rs, s') \<Longrightarrow>
      next s' \<le> numSubnets_of s'" for s s' cs rs
  proof (induction cs arbitrary: s rs)
    case Nil
    then show ?case by simp
  next
    case (Cons c cs)
    from Cons.prems(3) obtain r s1 rs' where c: "runCall s c = (r, s1)" and cs: "runCalls s1 cs = (rs', s')"
      by (auto split: prod.splits)
    from runCall_wfPool [OF Cons.prems(1) c] have "wfPool s1" by simp
    moreover from step [OF Cons.prems(1,2) c] have "next s1 \<le> numSubnets_of s1" .
    ultimately show ?case using cs by (rule Cons.IH)
  qed
  from wf0 n0 assms(2) have "next sna \<le> numSubnets_of sna"
    by (intro inv [of sna0 calls outcomes sna]) simp_all
  moreover from wf0 assms(2) have "wfPool sna" by (simp add: runCalls_wfPool)
  then have "(i + next sna) mod numSubnets_of sna < numSubnets_of sna"
    by (intro word_mod_less_divisor wfPool_numSubnets_pos)
  ultimately show ?thesis by simp
qed

theorem C7_cursor_bound_witness:
  "next \<lparr>network = \<lparr>IP = IPv4 10 1 0 0, Mask = 24\<rparr>, hostBits = 8, leftShift = 0,
          leftMask = 0xFFFFFFFF, rightShift = 0, rightMask = 0, next = 1,
          allocMap = [''10.1.0.0/24'' \<mapsto> True]\<rparr> \<le> 1 \<and>
   numSubnets_of \<lparr>network = \<lparr>IP = IPv4 10 1 0 0, Mask = 24\<rparr>, hostBits = 8, leftShift = 0,
          leftMask = 0xFFFFFFFF, rightShift = 0, rightMask = 0, next = 1,
          allocMap = [''10.1.0.0/24'' \<mapsto> True]\<rparr> = 1"
proof -
  have "runCalls \<lparr>network = \<lparr>IP = IPv4 10 1 0 0, Mask = 24\<rparr>, hostBits = 8, leftShift = 0,
          leftMask = 0xFFFFFFFF, rightShift = 0, rightMask = 0, next = 0, allocMap = Map.empty\<rparr> [Allocate] =
      ([Allocated (Inr \<lparr>IP = IPv4 10 1 0 0, Mask = 24\<rparr>)],
       \<lparr>network = \<lparr>IP = IPv4 10 1 0 0, Mask = 24\<rparr>, hostBits = 8, leftShift = 0,
          leftMask = 0xFFFFFFFF, rightShift = 0, rightMask = 0, next = 1,
          allocMap = [''10.1.0.0/24'' \<mapsto> True]\<rparr>)"
    by (simp add: ex_get8)
  from C7_cursor_bound [OF ex_new8 this, of 0] show ?thesis
    by (simp add: numSubnets_of_def numSubnetBits_of_def)
qed

text \<open>
  The claim C7 as the spec states it (the stored cursor is strictly below the number
  of subnets after every call) fails on a pool of one subnet: the first
  \<^verbatim>\<open>GetNetwork\<close> on 10.1.0.0/24 with 8 host bits succeeds and leaves the cursor at 1,
  the number of subnets.
\<close>

theorem C7_counterexample:
  "\<not> isl (NewSubnetAllocator ''10.1.0.0/24'' 8 []) \<and>
   fst (GetNetwork (projr (NewSubnetAllocator ''10.1.0.0/24'' 8 []))) = Inr \<lparr>IP = IPv4 10 1 0 0, Mask = 24\<rparr> \<and>
   \<not> next (snd (GetNetwork (projr (NewSubnetAllocator ''10.1.0.0/24'' 8 []))))
       < numSubnets_of (snd (GetNetwork (projr (NewSubnetAllocator ''10.1.0.0/24'' 8 []))))"
  by (simp add: ex_new8 ex_get8 numSubnets_of_def numSubnetBits_of_def)






end
